theory Spec2Isabelle
  imports Complex_Main
begin

section \<open>Python and numpy primitives used by the bandit library\<close>

text \<open>
  The library is Python over lists, with a few numpy calls. Python integers are
  unbounded (\<open>int\<close>); Python floats are modelled by exact reals, so every statement
  below is about exact arithmetic and says nothing about rounding.

  Exceptions are values. A method of an instance is a function from the instance (and
  the arguments, and the random numbers it draws) to a pair: what the call returned or
  raised, and the instance as the call left it. The instance is kept in the raising
  case too, because Python does not roll back the assignments made before a raise.

  numpy does not raise on \<open>log 0\<close>, on a float division by zero, on the square root of
  a negative number or on the mean of an empty list: by default it warns and yields
  an infinity or a nan. The model has no such values; it reports these evaluations as
  \<open>FloatingPointError\<close>, which is what numpy itself raises under
  \<^verbatim>\<open>np.seterr(all='raise')\<close>. On every other input the two agree.
\<close>

datatype error =
    IndexError
  | ValueError
  | ZeroDivisionError
  | FloatingPointError
  | NotImplementedError

text \<open>
  List subscripting \<^verbatim>\<open>xs[i]\<close>: an index in \<open>[0, len)\<close> is taken as it is, an index
  in \<open>[-len, 0)\<close> counts from the end, anything else raises IndexError.
\<close>

definition py_index :: "'a list \<Rightarrow> int \<Rightarrow> error + nat" where
  "py_index xs i =
     (if 0 \<le> i \<and> i < int (length xs) then Inr (nat i)
      else if i < 0 \<and> - int (length xs) \<le> i then Inr (nat (int (length xs) + i))
      else Inl IndexError)"

text \<open>\<^verbatim>\<open>range(n)\<close> for an integer \<open>n\<close>: empty when \<open>n \<le> 0\<close>.\<close>

definition py_range :: "int \<Rightarrow> int list" where
  "py_range n = map int [0..<nat n]"

text \<open>
  \<^verbatim>\<open>np.random.uniform(0.1, 0.9, size=n).tolist()\<close>. The generator is a parameter:
  \<open>draws k\<close> is the \<open>k\<close>-th number it hands out. numpy refuses a negative size with
  ValueError.
\<close>

definition np_random_uniform :: "(nat \<Rightarrow> real) \<Rightarrow> int \<Rightarrow> error + real list" where
  "np_random_uniform draws n =
     (if n < 0 then Inl ValueError else Inr (map draws [0..<nat n]))"

text \<open>
  \<^verbatim>\<open>np.argmax\<close> on a list: the index of the first occurrence of the maximum;
  ValueError on the empty list. The scan keeps the best element seen so far and
  replaces it only by a strictly greater one. The order is a parameter, since the
  UCB1 scores below are not plain reals.
\<close>

fun argmax_scan :: "('a \<Rightarrow> 'a \<Rightarrow> bool) \<Rightarrow> 'a list \<Rightarrow> nat \<Rightarrow> 'a \<Rightarrow> nat \<Rightarrow> nat" where
  "argmax_scan lt [] i best besti = besti"
| "argmax_scan lt (x # xs) i best besti =
     (if lt best x then argmax_scan lt xs (Suc i) x i
      else argmax_scan lt xs (Suc i) best besti)"

definition np_argmax :: "('a \<Rightarrow> 'a \<Rightarrow> bool) \<Rightarrow> 'a list \<Rightarrow> error + int" where
  "np_argmax lt xs =
     (case xs of
        [] \<Rightarrow> Inl ValueError
      | x # rest \<Rightarrow> Inr (int (argmax_scan lt rest 1 x 0)))"

definition np_log :: "int \<Rightarrow> error + real" where
  "np_log x = (if x \<le> 0 then Inl FloatingPointError else Inr (ln (real_of_int x)))"

definition np_divide :: "real \<Rightarrow> int \<Rightarrow> error + real" where
  "np_divide x c = (if c = 0 then Inl FloatingPointError else Inr (x / real_of_int c))"

definition np_sqrt :: "real \<Rightarrow> error + real" where
  "np_sqrt x = (if x < 0 then Inl FloatingPointError else Inr (sqrt x))"

definition np_mean :: "real list \<Rightarrow> error + real" where
  "np_mean xs =
     (if xs = [] then Inl FloatingPointError else Inr (sum_list xs / real (length xs)))"

text \<open>
  \<^verbatim>\<open>random.randrange(n)\<close>: ValueError when \<open>n \<le> 0\<close>, otherwise the generator's
  choice \<open>k\<close>, which lies in \<open>[0, n)\<close>.
\<close>

definition randrange :: "int \<Rightarrow> int \<Rightarrow> error + int" where
  "randrange n k = (if n \<le> 0 then Inl ValueError else Inr k)"


section \<open>bandit\_core.py: BaseBandit\<close>

record BaseBandit =
  n_arms :: int
  true_probs :: "real list"
  counts :: "int list"
  "values" :: "real list"

text \<open>
  \<^verbatim>\<open>__init__\<close>. \<^verbatim>\<open>true_probs or np.random.uniform(...)\<close> keeps a non-empty list and
  evaluates the sampler for \<^verbatim>\<open>None\<close> and for the empty list, which are both falsy.
  \<^verbatim>\<open>[0] * n_arms\<close> is the empty list when \<open>n_arms \<le> 0\<close>.
\<close>

definition BaseBandit_init :: "int \<Rightarrow> real list option \<Rightarrow> (nat \<Rightarrow> real) \<Rightarrow> error + BaseBandit" where
  "BaseBandit_init n tp draws =
     (case (case tp of
              Some (p # ps) \<Rightarrow> Inr (p # ps)
            | _ \<Rightarrow> np_random_uniform draws n) of
        Inl e \<Rightarrow> Inl e
      | Inr probs \<Rightarrow>
          Inr \<lparr>n_arms = n, true_probs = probs,
               counts = replicate (nat n) 0, values = replicate (nat n) 0\<rparr>)"

text \<open>
  \<^verbatim>\<open>reward(arm)\<close>: \<open>u\<close> is the value of \<^verbatim>\<open>random.random()\<close>. Nothing is assigned.
\<close>

definition BaseBandit_reward ::
  "'a BaseBandit_scheme \<Rightarrow> int \<Rightarrow> real \<Rightarrow> (error + int) \<times> 'a BaseBandit_scheme" where
  "BaseBandit_reward b arm u =
     (case py_index (true_probs b) arm of
        Inl e \<Rightarrow> (Inl e, b)
      | Inr j \<Rightarrow> (Inr (if u < true_probs b ! j then 1 else 0), b))"

text \<open>
  \<^verbatim>\<open>update(arm, reward)\<close>:
  \<^verbatim>\<open>counts[arm] += 1; n = counts[arm]; values[arm] += (reward - values[arm]) / n\<close>.
  The first statement is already done when the second subscript or the division raises.
\<close>

definition BaseBandit_update ::
  "'a BaseBandit_scheme \<Rightarrow> int \<Rightarrow> int \<Rightarrow> (error + unit) \<times> 'a BaseBandit_scheme" where
  "BaseBandit_update b arm reward =
     (case py_index (counts b) arm of
        Inl e \<Rightarrow> (Inl e, b)
      | Inr j \<Rightarrow>
          (let b1 = b\<lparr>counts := (counts b)[j := counts b ! j + 1]\<rparr>;
               n = counts b1 ! j
           in case py_index (values b1) arm of
                Inl e \<Rightarrow> (Inl e, b1)
              | Inr k \<Rightarrow>
                  if n = 0 then (Inl ZeroDivisionError, b1)
                  else (Inr (),
                        b1\<lparr>values := (values b1)
                              [k := values b1 ! k
                                    + (real_of_int reward - values b1 ! k) / real_of_int n]\<rparr>)))"

definition estimated_means :: "'a BaseBandit_scheme \<Rightarrow> real list" where
  "estimated_means b = values b"

text \<open>
  \<^verbatim>\<open>rmse()\<close>: the squared differences over \<^verbatim>\<open>zip(estimated_means(), true_probs)\<close>,
  their mean, its square root. Nothing is assigned.
\<close>

definition BaseBandit_rmse :: "'a BaseBandit_scheme \<Rightarrow> (error + real) \<times> 'a BaseBandit_scheme" where
  "BaseBandit_rmse b =
     (let errors = map (\<lambda>(est, true). (est - true)\<^sup>2) (zip (estimated_means b) (true_probs b))
      in case np_mean errors of
           Inl e \<Rightarrow> (Inl e, b)
         | Inr m \<Rightarrow> (case np_sqrt m of Inl e \<Rightarrow> (Inl e, b) | Inr s \<Rightarrow> (Inr s, b)))"

definition BaseBandit_pull :: "'a BaseBandit_scheme \<Rightarrow> (error + int) \<times> 'a BaseBandit_scheme" where
  "BaseBandit_pull b = (Inl NotImplementedError, b)"

text \<open>A sequence of \<^verbatim>\<open>update\<close> calls, as a driver makes them; it stops at the first raise.\<close>

fun update_calls ::
  "'a BaseBandit_scheme \<Rightarrow> (int \<times> int) list \<Rightarrow> (error + unit) \<times> 'a BaseBandit_scheme" where
  "update_calls b [] = (Inr (), b)"
| "update_calls b ((arm, reward) # calls) =
     (case BaseBandit_update b arm reward of
        (Inl e, b') \<Rightarrow> (Inl e, b')
      | (Inr _, b') \<Rightarrow> update_calls b' calls)"

text \<open>The rewards that a sequence of calls gives to one arm, in order.\<close>

definition rewards_of :: "int \<Rightarrow> (int \<times> int) list \<Rightarrow> int list" where
  "rewards_of i calls = map snd (filter (\<lambda>(arm, reward). arm = i) calls)"


section \<open>bandits.py: EpsilonGreedy\<close>

record EpsilonGreedy = BaseBandit +
  epsilon :: real
  explore_count :: int
  exploit_count :: int

definition EpsilonGreedy_init ::
  "int \<Rightarrow> real \<Rightarrow> real list option \<Rightarrow> (nat \<Rightarrow> real) \<Rightarrow> error + EpsilonGreedy" where
  "EpsilonGreedy_init n eps tp draws =
     (case BaseBandit_init n tp draws of
        Inl e \<Rightarrow> Inl e
      | Inr b \<Rightarrow>
          Inr \<lparr>n_arms = n_arms b, true_probs = true_probs b,
               counts = counts b, values = values b,
               epsilon = eps, explore_count = 0, exploit_count = 0\<rparr>)"

text \<open>
  \<^verbatim>\<open>pull()\<close>: \<open>u\<close> is the value of \<^verbatim>\<open>random.random()\<close>, a float in \<open>[0, 1)\<close>, and \<open>k\<close>
  is what \<^verbatim>\<open>random.randrange\<close> hands out when the explore branch asks for it. The
  test is \<^verbatim>\<open>random.random() > self.epsilon\<close>, a strict comparison.
\<close>

definition EpsilonGreedy_pull ::
  "EpsilonGreedy \<Rightarrow> real \<Rightarrow> int \<Rightarrow> (error + int) \<times> EpsilonGreedy" where
  "EpsilonGreedy_pull b u k =
     (if u > epsilon b then
        (let b1 = b\<lparr>exploit_count := exploit_count b + 1\<rparr>
         in case np_argmax (<) (values b1) of
              Inl e \<Rightarrow> (Inl e, b1)
            | Inr arm \<Rightarrow> (Inr arm, b1))
      else
        (let b1 = b\<lparr>explore_count := explore_count b + 1\<rparr>
         in case randrange (n_arms b1) k of
              Inl e \<Rightarrow> (Inl e, b1)
            | Inr arm \<Rightarrow> (Inr arm, b1)))"

definition EpsilonGreedy_update ::
  "EpsilonGreedy \<Rightarrow> int \<Rightarrow> int \<Rightarrow> (error + unit) \<times> EpsilonGreedy" where
  "EpsilonGreedy_update b arm reward = BaseBandit_update b arm reward"


section \<open>bandits.py: UCB1\<close>

record UCB1 = BaseBandit +
  total_pulls :: int

definition UCB1_init :: "int \<Rightarrow> real list option \<Rightarrow> (nat \<Rightarrow> real) \<Rightarrow> error + UCB1" where
  "UCB1_init n tp draws =
     (case BaseBandit_init n tp draws of
        Inl e \<Rightarrow> Inl e
      | Inr b \<Rightarrow>
          Inr \<lparr>n_arms = n_arms b, true_probs = true_probs b,
               counts = counts b, values = values b, total_pulls = 0\<rparr>)"

text \<open>
  A score is a float that may be \<^verbatim>\<open>float("inf")\<close>. Infinity is greater than every
  finite score and not greater than itself.
\<close>

datatype score = Finite real | Infinity

fun score_less :: "score \<Rightarrow> score \<Rightarrow> bool" where
  "score_less (Finite x) (Finite y) = (x < y)"
| "score_less (Finite x) Infinity = True"
| "score_less Infinity y = False"

text \<open>\<^verbatim>\<open>np.sqrt(2 * np.log(self.total_pulls) / self.counts[i])\<close>, inside out.\<close>

definition ucb_bonus :: "int \<Rightarrow> int \<Rightarrow> error + real" where
  "ucb_bonus pulls c =
     (case np_log pulls of
        Inl e \<Rightarrow> Inl e
      | Inr l \<Rightarrow>
          (case np_divide (2 * l) c of
             Inl e \<Rightarrow> Inl e
           | Inr q \<Rightarrow> np_sqrt q))"

text \<open>The loop of \<^verbatim>\<open>pull()\<close> over \<^verbatim>\<open>range(self.n_arms)\<close>, appending one score per arm.\<close>

fun UCB1_scores :: "UCB1 \<Rightarrow> int list \<Rightarrow> score list \<Rightarrow> error + score list" where
  "UCB1_scores b [] scores = Inr scores"
| "UCB1_scores b (i # rest) scores =
     (case py_index (counts b) i of
        Inl e \<Rightarrow> Inl e
      | Inr j \<Rightarrow>
          if counts b ! j = 0 then UCB1_scores b rest (scores @ [Infinity])
          else
            (case ucb_bonus (total_pulls b) (counts b ! j) of
               Inl e \<Rightarrow> Inl e
             | Inr bonus \<Rightarrow>
                 (case py_index (values b) i of
                    Inl e \<Rightarrow> Inl e
                  | Inr k \<Rightarrow> UCB1_scores b rest (scores @ [Finite (values b ! k + bonus)]))))"

definition UCB1_pull :: "UCB1 \<Rightarrow> (error + int) \<times> UCB1" where
  "UCB1_pull b =
     (let b1 = b\<lparr>total_pulls := total_pulls b + 1\<rparr>
      in case UCB1_scores b1 (py_range (n_arms b1)) [] of
           Inl e \<Rightarrow> (Inl e, b1)
         | Inr scores \<Rightarrow>
             (case np_argmax score_less scores of
                Inl e \<Rightarrow> (Inl e, b1)
              | Inr arm \<Rightarrow> (Inr arm, b1)))"

definition UCB1_update :: "UCB1 \<Rightarrow> int \<Rightarrow> int \<Rightarrow> (error + unit) \<times> UCB1" where
  "UCB1_update b arm reward = BaseBandit_update b arm reward"

text \<open>
  A driver's rounds: \<^verbatim>\<open>arm = pull(); update(arm, r)\<close> once for every reward of the
  list, collecting the arms pulled; it stops at the first raise.
\<close>

fun UCB1_rounds :: "UCB1 \<Rightarrow> int list \<Rightarrow> (error + int list) \<times> UCB1" where
  "UCB1_rounds b [] = (Inr [], b)"
| "UCB1_rounds b (r # rs) =
     (case UCB1_pull b of
        (Inl e, b1) \<Rightarrow> (Inl e, b1)
      | (Inr arm, b1) \<Rightarrow>
          (case UCB1_update b1 arm r of
             (Inl e, b2) \<Rightarrow> (Inl e, b2)
           | (Inr _, b2) \<Rightarrow>
               (case UCB1_rounds b2 rs of
                  (Inl e, b3) \<Rightarrow> (Inl e, b3)
                | (Inr arms, b3) \<Rightarrow> (Inr (arm # arms), b3))))"

text \<open>
  Any use of an instance: the calls a driver can make, in any order and with any
  arguments. A call that raises leaves the instance as it was at the raise, and the
  driver may go on using it.
\<close>

datatype ucb1_call = Pull | Reward int real | Update int int | Rmse

fun UCB1_call :: "UCB1 \<Rightarrow> ucb1_call \<Rightarrow> UCB1" where
  "UCB1_call b Pull = snd (UCB1_pull b)"
| "UCB1_call b (Reward arm u) = snd (BaseBandit_reward b arm u)"
| "UCB1_call b (Update arm reward) = snd (UCB1_update b arm reward)"
| "UCB1_call b Rmse = snd (BaseBandit_rmse b)"

definition UCB1_calls :: "UCB1 \<Rightarrow> ucb1_call list \<Rightarrow> UCB1" where
  "UCB1_calls b calls = foldl UCB1_call b calls"


section \<open>bandits.py: Thompson\<close>

record Thompson = BaseBandit +
  alphas :: "int list"
  betas :: "int list"

definition Thompson_init ::
  "int \<Rightarrow> int \<Rightarrow> int \<Rightarrow> real list option \<Rightarrow> (nat \<Rightarrow> real) \<Rightarrow> error + Thompson" where
  "Thompson_init n initial_alpha initial_beta tp draws =
     (case BaseBandit_init n tp draws of
        Inl e \<Rightarrow> Inl e
      | Inr b \<Rightarrow>
          Inr \<lparr>n_arms = n_arms b, true_probs = true_probs b,
               counts = counts b, values = values b,
               alphas = replicate (nat n) initial_alpha,
               betas = replicate (nat n) initial_beta\<rparr>)"

text \<open>
  The driver's \<^verbatim>\<open>session_state\<close>, as far as \<^verbatim>\<open>warm_up\<close> touches it, and the rows that
  \<^verbatim>\<open>log_to_csv\<close> (run\_bandit.py) appends to the log file: step, arm, reward, counts and
  values (the timestamp column is left out).
\<close>

record session_state =
  step :: int
  rewards_log :: "(int \<times> int \<times> int) list"
  rmse_log :: "real list"
  csv_rows :: "(int \<times> int \<times> int \<times> int list \<times> real list) list"

definition log_to_csv ::
  "int \<Rightarrow> int \<Rightarrow> int \<Rightarrow> int list \<Rightarrow> real list \<Rightarrow> session_state \<Rightarrow> session_state" where
  "log_to_csv stp arm reward cs vs s = s\<lparr>csv_rows := csv_rows s @ [(stp, arm, reward, cs, vs)]\<rparr>"

text \<open>
  One pass of the loop of \<^verbatim>\<open>warm_up\<close>, for one arm. \<open>rnd\<close> is the random source:
  warm-up calls \<^verbatim>\<open>random.random()\<close> once per arm, in arm order, so the draw for arm
  \<open>k\<close> is \<open>rnd k\<close>.
\<close>

definition warm_up_arm ::
  "(nat \<Rightarrow> real) \<Rightarrow> int \<Rightarrow> Thompson \<times> session_state
     \<Rightarrow> (error + unit) \<times> (Thompson \<times> session_state)" where
  "warm_up_arm rnd arm ts =
     (case ts of (t, s) \<Rightarrow>
      case BaseBandit_reward t arm (rnd (nat arm)) of
        (Inl e, t1) \<Rightarrow> (Inl e, (t1, s))
      | (Inr rwd, t1) \<Rightarrow>
      case BaseBandit_update t1 arm rwd of
        (Inl e, t2) \<Rightarrow> (Inl e, (t2, s))
      | (Inr _, t2) \<Rightarrow>
      case py_index (alphas t2) arm of
        Inl e \<Rightarrow> (Inl e, (t2, s))
      | Inr j \<Rightarrow>
      let t3 = t2\<lparr>alphas := (alphas t2)[j := alphas t2 ! j + rwd]\<rparr> in
      case py_index (betas t3) arm of
        Inl e \<Rightarrow> (Inl e, (t3, s))
      | Inr k \<Rightarrow>
      let t4 = t3\<lparr>betas := (betas t3)[k := betas t3 ! k + (1 - rwd)]\<rparr>;
          s1 = s\<lparr>step := step s + 1\<rparr>;
          s2 = s1\<lparr>rewards_log := rewards_log s1 @ [(step s1, arm, rwd)]\<rparr>
      in
      case BaseBandit_rmse t4 of
        (Inl e, t5) \<Rightarrow> (Inl e, (t5, s2))
      | (Inr x, t5) \<Rightarrow>
      let s3 = s2\<lparr>rmse_log := rmse_log s2 @ [x]\<rparr>
      in (Inr (), (t5, log_to_csv (step s3) arm rwd (counts t5) (values t5) s3)))"

fun warm_up_loop ::
  "(nat \<Rightarrow> real) \<Rightarrow> int list \<Rightarrow> Thompson \<times> session_state
     \<Rightarrow> (error + unit) \<times> (Thompson \<times> session_state)" where
  "warm_up_loop rnd [] ts = (Inr (), ts)"
| "warm_up_loop rnd (arm # arms) ts =
     (case warm_up_arm rnd arm ts of
        (Inl e, ts') \<Rightarrow> (Inl e, ts')
      | (Inr _, ts') \<Rightarrow> warm_up_loop rnd arms ts')"

definition Thompson_warm_up ::
  "(nat \<Rightarrow> real) \<Rightarrow> Thompson \<times> session_state
     \<Rightarrow> (error + unit) \<times> (Thompson \<times> session_state)" where
  "Thompson_warm_up rnd ts = warm_up_loop rnd (py_range (n_arms (fst ts))) ts"

text \<open>
  \<^verbatim>\<open>np.random.beta(a, b)\<close>: numpy refuses a non-positive shape with ValueError;
  otherwise the generator's sample \<open>theta\<close>.
\<close>

definition np_random_beta :: "int \<Rightarrow> int \<Rightarrow> real \<Rightarrow> error + real" where
  "np_random_beta a b theta = (if a \<le> 0 \<or> b \<le> 0 then Inl ValueError else Inr theta)"

text \<open>The list comprehension of \<^verbatim>\<open>pull()\<close> over \<^verbatim>\<open>zip(self.alphas, self.betas)\<close>.\<close>

fun beta_samples :: "(nat \<Rightarrow> real) \<Rightarrow> nat \<Rightarrow> (int \<times> int) list \<Rightarrow> error + real list" where
  "beta_samples thetas i [] = Inr []"
| "beta_samples thetas i ((a, b) # rest) =
     (case np_random_beta a b (thetas i) of
        Inl e \<Rightarrow> Inl e
      | Inr x \<Rightarrow>
          (case beta_samples thetas (Suc i) rest of
             Inl e \<Rightarrow> Inl e
           | Inr xs \<Rightarrow> Inr (x # xs)))"

definition Thompson_pull :: "Thompson \<Rightarrow> (nat \<Rightarrow> real) \<Rightarrow> (error + int) \<times> Thompson" where
  "Thompson_pull t thetas =
     (case beta_samples thetas 0 (zip (alphas t) (betas t)) of
        Inl e \<Rightarrow> (Inl e, t)
      | Inr samples \<Rightarrow>
          (case np_argmax (<) samples of
             Inl e \<Rightarrow> (Inl e, t)
           | Inr arm \<Rightarrow> (Inr arm, t)))"

text \<open>
  \<^verbatim>\<open>update(arm, reward)\<close>: the base update, then \<^verbatim>\<open>if reward:\<close>, which is true for
  every non-zero integer.
\<close>

definition Thompson_update :: "Thompson \<Rightarrow> int \<Rightarrow> int \<Rightarrow> (error + unit) \<times> Thompson" where
  "Thompson_update t arm reward =
     (case BaseBandit_update t arm reward of
        (Inl e, t1) \<Rightarrow> (Inl e, t1)
      | (Inr _, t1) \<Rightarrow>
          if reward \<noteq> 0 then
            (case py_index (alphas t1) arm of
               Inl e \<Rightarrow> (Inl e, t1)
             | Inr j \<Rightarrow> (Inr (), t1\<lparr>alphas := (alphas t1)[j := alphas t1 ! j + 1]\<rparr>))
          else
            (case py_index (betas t1) arm of
               Inl e \<Rightarrow> (Inl e, t1)
             | Inr j \<Rightarrow> (Inr (), t1\<lparr>betas := (betas t1)[j := betas t1 ! j + 1]\<rparr>)))"

text \<open>Any use of a Thompson instance together with the driver's session state.\<close>

datatype thompson_call =
    TPull "nat \<Rightarrow> real"
  | TReward int real
  | TUpdate int int
  | TWarmUp "nat \<Rightarrow> real"
  | TRmse

fun Thompson_call :: "Thompson \<times> session_state \<Rightarrow> thompson_call \<Rightarrow> Thompson \<times> session_state" where
  "Thompson_call (t, s) (TPull thetas) = (snd (Thompson_pull t thetas), s)"
| "Thompson_call (t, s) (TReward arm u) = (snd (BaseBandit_reward t arm u), s)"
| "Thompson_call (t, s) (TUpdate arm reward) = (snd (Thompson_update t arm reward), s)"
| "Thompson_call (t, s) (TWarmUp rnd) = snd (Thompson_warm_up rnd (t, s))"
| "Thompson_call (t, s) TRmse = (snd (BaseBandit_rmse t), s)"

definition Thompson_calls ::
  "Thompson \<times> session_state \<Rightarrow> thompson_call list \<Rightarrow> Thompson \<times> session_state" where
  "Thompson_calls ts calls = foldl Thompson_call ts calls"


section \<open>Well-formed instances\<close>

text \<open>
  What \<^verbatim>\<open>__init__\<close> establishes for the statistics of every strategy, and what
  every method keeps: one count and one value per arm, no count negative.
\<close>

definition fresh :: "'a BaseBandit_scheme \<Rightarrow> bool" where
  "fresh b \<longleftrightarrow>
     counts b = replicate (nat (n_arms b)) 0 \<and> values b = replicate (nat (n_arms b)) 0"

definition stats_ok :: "'a BaseBandit_scheme \<Rightarrow> bool" where
  "stats_ok b \<longleftrightarrow>
     length (counts b) = nat (n_arms b) \<and> length (values b) = nat (n_arms b)
     \<and> list_all (\<lambda>c. 0 \<le> c) (counts b)"


definition probs_ok :: "'a BaseBandit_scheme \<Rightarrow> bool" where
  "probs_ok b \<longleftrightarrow> length (true_probs b) = nat (n_arms b)"

definition posterior_ok :: "Thompson \<Rightarrow> bool" where
  "posterior_ok t \<longleftrightarrow>
     length (alphas t) = nat (n_arms t) \<and> length (betas t) = nat (n_arms t)"

definition all_positive :: "Thompson \<Rightarrow> bool" where
  "all_positive t \<longleftrightarrow> list_all (\<lambda>a. 0 < a) (alphas t) \<and> list_all (\<lambda>b. 0 < b) (betas t)"

text \<open>A generator that always hands out one half, for concrete runs.\<close>

definition half_draws :: "nat \<Rightarrow> real" where
  "half_draws k = 1 / 2"

text \<open>
  The truth value Python gives the \<^verbatim>\<open>true_probs\<close> argument: \<^verbatim>\<open>None\<close> and the empty
  list are falsy. \<open>supplied\<close> is the list the caller passed, if any.
\<close>

definition falsy :: "real list option \<Rightarrow> bool" where
  "falsy tp \<longleftrightarrow> tp = None \<or> tp = Some []"

definition supplied :: "real list option \<Rightarrow> real list" where
  "supplied tp = (case tp of None \<Rightarrow> [] | Some ps \<Rightarrow> ps)"

text \<open>An arm that no list of \<open>n_arms\<close> entries can be subscripted with.\<close>

definition arm_outside :: "'a BaseBandit_scheme \<Rightarrow> int \<Rightarrow> bool" where
  "arm_outside b arm \<longleftrightarrow> n_arms b \<le> arm \<or> arm < - n_arms b"

text \<open>Concrete instances for the runs below.\<close>

definition two_arms :: BaseBandit where
  "two_arms = \<lparr>n_arms = 2, true_probs = [1 / 2, 1 / 2], counts = [0, 0], values = [0, 0]\<rparr>"

definition two_arms_eps :: EpsilonGreedy where
  "two_arms_eps = \<lparr>n_arms = 2, true_probs = [1, 0], counts = [1, 0], values = [1, 0],
                    epsilon = 0, explore_count = 0, exploit_count = 0\<rparr>"

definition two_arms_ucb :: UCB1 where
  "two_arms_ucb = \<lparr>n_arms = 2, true_probs = [1 / 2, 1 / 2], counts = [0, 0], values = [0, 0],
                    total_pulls = 0\<rparr>"

definition two_arms_thompson :: Thompson where
  "two_arms_thompson = \<lparr>n_arms = 2, true_probs = [1 / 2, 1 / 2], counts = [0, 0], values = [0, 0],
                         alphas = [1, 1], betas = [1, 1]\<rparr>"

text \<open>
  The score that \<^verbatim>\<open>UCB1.pull\<close> gives to arm \<open>j\<close> when every operation in it is
  defined, and the condition under which \<open>UCB1\<close> instances are used: statistics well
  formed, \<open>total_pulls\<close> not negative.
\<close>

definition ucb_score :: "UCB1 \<Rightarrow> nat \<Rightarrow> score" where
  "ucb_score b j =
     (if counts b ! j = 0 then Infinity
      else Finite (values b ! j
                   + sqrt (2 * ln (real_of_int (total_pulls b)) / real_of_int (counts b ! j))))"

definition ucb_ok :: "UCB1 \<Rightarrow> bool" where
  "ucb_ok b \<longleftrightarrow> stats_ok b \<and> 0 \<le> total_pulls b"

text \<open>
  The instance after one pass of the warm-up loop for the arm at list position \<open>j\<close>
  that drew the reward \<open>rwd\<close>.
\<close>

definition warmed :: "Thompson \<Rightarrow> nat \<Rightarrow> int \<Rightarrow> Thompson" where
  "warmed t j rwd =
     t\<lparr>counts := (counts t)[j := counts t ! j + 1],
       values := (values t)[j := values t ! j
                   + (real_of_int rwd - values t ! j) / real_of_int (counts t ! j + 1)],
       alphas := (alphas t)[j := alphas t ! j + rwd],
       betas := (betas t)[j := betas t ! j + (1 - rwd)]\<rparr>"

definition empty_session :: session_state where
  "empty_session = \<lparr>step = 0, rewards_log = [], rmse_log = [], csv_rows = []\<rparr>"

text \<open>The arms recorded in the session's reward log, oldest first.\<close>

definition logged_arms :: "session_state \<Rightarrow> int list" where
  "logged_arms s = map (\<lambda>(stp, arm, rwd). arm) (rewards_log s)"


section \<open>Facts about the primitives\<close>

lemma py_index_nonneg: "0 \<le> i \<Longrightarrow> i < int (length xs) \<Longrightarrow> py_index xs i = Inr (nat i)"
  by (simp add: py_index_def)

lemma py_index_outside:
  "int (length xs) \<le> i \<or> i < - int (length xs) \<Longrightarrow> py_index xs i = Inl IndexError"
  by (auto simp: py_index_def)

lemma fresh_stats_ok: "fresh b \<Longrightarrow> stats_ok b"
  by (simp add: fresh_def stats_ok_def list_all_length)

lemma BaseBandit_init_fresh: "BaseBandit_init n tp draws = Inr b \<Longrightarrow> fresh b \<and> n_arms b = n"
  by (auto simp: BaseBandit_init_def fresh_def split: sum.splits)


section \<open>The incremental mean\<close>

text \<open>An update of an arm in \<open>[0, n_arms)\<close> of a well-formed instance returns, with this state.\<close>

lemma BaseBandit_update_in_range:
  assumes "stats_ok b" "0 \<le> arm" "arm < n_arms b"
  shows "BaseBandit_update b arm reward =
     (Inr (), b\<lparr>counts := (counts b)[nat arm := counts b ! nat arm + 1],
                values := (values b)[nat arm := values b ! nat arm
                   + (real_of_int reward - values b ! nat arm) / real_of_int (counts b ! nat arm + 1)]\<rparr>)"
proof -
  from assms have len: "arm < int (length (counts b))" "arm < int (length (values b))"
    and pos: "0 \<le> counts b ! nat arm"
    by (auto simp: stats_ok_def list_all_length)
  then show ?thesis using assms(2)
    by (simp add: BaseBandit_update_def py_index_nonneg Let_def)
qed

text \<open>
  The loop invariant of a run of updates, for one arm \<open>i\<close>: its value times its count is
  the sum of the rewards it has received, and its value is zero while its count is.
\<close>

lemma update_calls_mean:
  assumes "stats_ok b" "0 \<le> i" "i < n_arms b"
    and "list_all (\<lambda>(arm, reward). 0 \<le> arm \<and> arm < n_arms b) calls"
    and "values b ! nat i * real_of_int (counts b ! nat i) = real_of_int s"
    and "counts b ! nat i = 0 \<longrightarrow> values b ! nat i = 0"
  shows "\<exists>b'. update_calls b calls = (Inr (), b') \<and> stats_ok b' \<and> n_arms b' = n_arms b
     \<and> (counts b' ! nat i = 0 \<longrightarrow> values b' ! nat i = 0)
     \<and> counts b' ! nat i = counts b ! nat i + int (length (rewards_of i calls))
     \<and> values b' ! nat i * real_of_int (counts b' ! nat i)
         = real_of_int (s + sum_list (rewards_of i calls))"
  using assms
proof (induction calls arbitrary: b s)
  case Nil
  then show ?case by (simp add: rewards_of_def)
next
  case (Cons call calls)
  obtain arm reward where call: "call = (arm, reward)" by (cases call)
  from Cons.prems(4) call have arm: "0 \<le> arm" "arm < n_arms b"
    and rest: "list_all (\<lambda>(arm, reward). 0 \<le> arm \<and> arm < n_arms b) calls"
    by auto
  define b1 where "b1 = b\<lparr>counts := (counts b)[nat arm := counts b ! nat arm + 1],
                values := (values b)[nat arm := values b ! nat arm
                   + (real_of_int reward - values b ! nat arm) / real_of_int (counts b ! nat arm + 1)]\<rparr>"
  have step: "BaseBandit_update b arm reward = (Inr (), b1)"
    unfolding b1_def by (rule BaseBandit_update_in_range[OF Cons.prems(1) arm])
  have len: "nat arm < length (counts b)" "nat arm < length (values b)"
    "nat i < length (counts b)" "nat i < length (values b)"
    using Cons.prems(1,2,3) arm by (auto simp: stats_ok_def)
  have cpos: "0 \<le> counts b ! nat arm"
    using Cons.prems(1) len by (auto simp: stats_ok_def list_all_length)
  have ok1: "stats_ok b1" and n1: "n_arms b1 = n_arms b"
    using Cons.prems(1) len cpos
    by (auto simp: b1_def stats_ok_def list_all_length nth_list_update)
  show ?case
  proof (cases "arm = i")
    case True
    have c1: "counts b1 ! nat i = counts b ! nat i + 1"
      using True len by (simp add: b1_def)
    have v1: "values b1 ! nat i * real_of_int (counts b1 ! nat i) = real_of_int (s + reward)"
    proof -
      have nz: "real_of_int (counts b ! nat i) + 1 \<noteq> 0"
        using cpos True by (metis add_nonneg_pos of_int_0_le_iff zero_less_one less_irrefl)
      have "values b1 ! nat i = values b ! nat i
             + (real_of_int reward - values b ! nat i) / (real_of_int (counts b ! nat i) + 1)"
        using True len by (simp add: b1_def)
      then have "values b1 ! nat i * (real_of_int (counts b ! nat i) + 1)
           = values b ! nat i * real_of_int (counts b ! nat i) + real_of_int reward"
        using nz by (simp add: field_simps)
      then show ?thesis using Cons.prems(5) c1 by simp
    qed
    have "counts b1 ! nat i \<noteq> 0" using c1 cpos True by simp
    with Cons.IH[OF ok1 _ _ _ v1] Cons.prems(2,3) rest n1
    obtain b' where b': "update_calls b1 calls = (Inr (), b')" "stats_ok b'" "n_arms b' = n_arms b1"
      "counts b' ! nat i = 0 \<longrightarrow> values b' ! nat i = 0"
      "counts b' ! nat i = counts b1 ! nat i + int (length (rewards_of i calls))"
      "values b' ! nat i * real_of_int (counts b' ! nat i)
         = real_of_int (s + reward + sum_list (rewards_of i calls))"
      by auto
    then show ?thesis using step call True c1 n1
      by (simp add: rewards_of_def add.assoc)
  next
    case False
    then have ne: "nat arm \<noteq> nat i" using arm Cons.prems(2) by auto
    have c1: "counts b1 ! nat i = counts b ! nat i" and v1: "values b1 ! nat i = values b ! nat i"
      using ne by (simp_all add: b1_def)
    have inv1: "values b1 ! nat i * real_of_int (counts b1 ! nat i) = real_of_int s"
      using c1 v1 Cons.prems(5) by simp
    have "counts b1 ! nat i = 0 \<longrightarrow> values b1 ! nat i = 0"
      using c1 v1 Cons.prems(6) by simp
    with Cons.IH[OF ok1 _ _ _ inv1] Cons.prems(2,3) rest n1
    obtain b' where b': "update_calls b1 calls = (Inr (), b')" "stats_ok b'" "n_arms b' = n_arms b1"
      "counts b' ! nat i = 0 \<longrightarrow> values b' ! nat i = 0"
      "counts b' ! nat i = counts b1 ! nat i + int (length (rewards_of i calls))"
      "values b' ! nat i * real_of_int (counts b' ! nat i)
         = real_of_int (s + sum_list (rewards_of i calls))"
      by auto
    then show ?thesis using step call False c1 n1
      by (simp add: rewards_of_def)
  qed
qed

text \<open>
  Claim C1. On a fresh instance (counts and values as the constructor leaves them), take
  any arm \<open>i\<close> in \<open>[0, n_arms)\<close> and any finite sequence of \<^verbatim>\<open>update\<close> calls on arms in
  \<open>[0, n_arms)\<close>; the calls to other arms may be interleaved with those to \<open>i\<close>. Every call
  returns; afterwards \<open>counts[i]\<close> is the number \<open>n\<close> of calls made on \<open>i\<close>, and \<open>values[i]\<close>
  is the arithmetic mean of the rewards \<open>r_1 .. r_n\<close> those calls gave (over exact
  arithmetic), zero when there were none. Each call is the source's three statements,
  \<open>BaseBandit_update\<close>.
\<close>

theorem incremental_mean:
  assumes "fresh b" "0 \<le> i" "i < n_arms b"
    and "list_all (\<lambda>(arm, reward). 0 \<le> arm \<and> arm < n_arms b) calls"
  shows "\<exists>b'. update_calls b calls = (Inr (), b')
     \<and> counts b' ! nat i = int (length (rewards_of i calls))
     \<and> values b' ! nat i =
         (if rewards_of i calls = [] then 0
          else real_of_int (sum_list (rewards_of i calls)) / real (length (rewards_of i calls)))"
proof -
  have z: "counts b ! nat i = 0" "values b ! nat i = 0"
    using assms(1,2,3) by (auto simp: fresh_def)
  then have "values b ! nat i * real_of_int (counts b ! nat i) = real_of_int 0" by simp
  from update_calls_mean[OF fresh_stats_ok[OF assms(1)] assms(2,3,4) this] z
  obtain b' where b': "update_calls b calls = (Inr (), b')"
      "counts b' ! nat i = counts b ! nat i + int (length (rewards_of i calls))"
      "values b' ! nat i * real_of_int (counts b' ! nat i)
         = real_of_int (0 + sum_list (rewards_of i calls))"
      "counts b' ! nat i = 0 \<longrightarrow> values b' ! nat i = 0"
    by blast
  have c: "counts b' ! nat i = int (length (rewards_of i calls))" using b'(2) z by simp
  have "values b' ! nat i =
         (if rewards_of i calls = [] then 0
          else real_of_int (sum_list (rewards_of i calls)) / real (length (rewards_of i calls)))"
    using b'(3,4) c by (auto simp: field_simps)
  with b'(1) c show ?thesis by blast
qed

text \<open>
  A fresh two-armed instance and the calls \<^verbatim>\<open>update(0, 1); update(1, 1); update(0, 0)\<close>:
  arm 0 has count 2 and value one half.
\<close>

theorem incremental_mean_witness:
  "fresh \<lparr>n_arms = 2, true_probs = [1 / 2, 1 / 2], counts = [0, 0], values = [0, 0]\<rparr>
   \<and> (\<exists>b'. update_calls \<lparr>n_arms = 2, true_probs = [1 / 2, 1 / 2], counts = [0, 0], values = [0, 0]\<rparr>
               [(0, 1), (1, 1), (0, 0)] = (Inr (), b')
          \<and> counts b' ! 0 = 2 \<and> values b' ! 0 = 1 / 2)"
  using incremental_mean
    [of "\<lparr>n_arms = 2, true_probs = [1 / 2, 1 / 2], counts = [0, 0], values = [0, 0]\<rparr>"
        0 "[(0, 1), (1, 1), (0, 0)]"]
  by (simp add: fresh_def rewards_of_def numeral_2_eq_2)

section \<open>Construction\<close>

lemma replicate_small:
  "replicate 1 x = [x]" "replicate 2 x = [x, x]" "replicate 3 x = [x, x, x]"
  "replicate 4 x = [x, x, x, x]"
  by (simp_all add: eval_nat_numeral)

lemma upt_small:
  "[0..<1] = [0]" "[0..<2] = [0, 1]" "[0..<3] = [0, 1, 2]" "[0..<4] = [0, 1, 2, 3]"
  by (simp_all add: eval_nat_numeral)

lemma BaseBandit_init_eq:
  "BaseBandit_init n tp draws =
     (if falsy tp \<and> n < 0 then Inl ValueError
      else Inr \<lparr>n_arms = n,
                true_probs = (if falsy tp then map draws [0..<nat n] else supplied tp),
                counts = replicate (nat n) 0, values = replicate (nat n) 0\<rparr>)"
  by (auto simp: BaseBandit_init_def falsy_def supplied_def np_random_uniform_def
           split: option.splits list.splits)

text \<open>
  Claim C2 as stated fails: construction raises in none of the listed cases when a
  non-empty \<^verbatim>\<open>true_probs\<close> is passed. Five constructions that the claim says raise, and
  the instances they return: \<open>n_arms = 0\<close>; a list of one probability for two arms; a
  probability of 5; \<open>epsilon = 2\<close>; \<open>initial_alpha = 0\<close> and \<open>initial_beta = -3\<close>.
\<close>

theorem construction_counterexample:
  "UCB1_init 0 (Some [1 / 2]) half_draws
     = Inr \<lparr>n_arms = 0, true_probs = [1 / 2], counts = [], values = [], total_pulls = 0\<rparr>
   \<and> UCB1_init 2 (Some [1 / 2]) half_draws
     = Inr \<lparr>n_arms = 2, true_probs = [1 / 2], counts = [0, 0], values = [0, 0], total_pulls = 0\<rparr>
   \<and> UCB1_init 1 (Some [5]) half_draws
     = Inr \<lparr>n_arms = 1, true_probs = [5], counts = [0], values = [0], total_pulls = 0\<rparr>
   \<and> EpsilonGreedy_init 1 2 (Some [1 / 2]) half_draws
     = Inr \<lparr>n_arms = 1, true_probs = [1 / 2], counts = [0], values = [0],
            epsilon = 2, explore_count = 0, exploit_count = 0\<rparr>
   \<and> Thompson_init 1 0 (- 3) (Some [1 / 2]) half_draws
     = Inr \<lparr>n_arms = 1, true_probs = [1 / 2], counts = [0], values = [0],
            alphas = [0], betas = [- 3]\<rparr>"
  by (simp add: UCB1_init_def EpsilonGreedy_init_def Thompson_init_def BaseBandit_init_def
        replicate_small)

text \<open>
  Claim C2, amended. The constructors validate nothing. Construction of any strategy
  raises in exactly one case: \<^verbatim>\<open>true_probs\<close> is \<^verbatim>\<open>None\<close> or empty and \<open>n_arms < 0\<close>, where
  the sampler refuses the negative size with ValueError and no instance is produced.
  In every other case it returns an instance that stores \<open>n_arms\<close>, \<open>epsilon\<close>,
  \<open>initial_alpha\<close> and \<open>initial_beta\<close> as given, whatever their values, and a non-empty
  \<^verbatim>\<open>true_probs\<close> as given, whatever its length and entries; counts and values are
  \<open>n_arms\<close> zeros (none when \<open>n_arms \<le> 0\<close>).
\<close>

theorem construction_unvalidated:
  "UCB1_init n tp draws =
     (if falsy tp \<and> n < 0 then Inl ValueError
      else Inr \<lparr>n_arms = n,
                true_probs = (if falsy tp then map draws [0..<nat n] else supplied tp),
                counts = replicate (nat n) 0, values = replicate (nat n) 0,
                total_pulls = 0\<rparr>)
   \<and> EpsilonGreedy_init n eps tp draws =
     (if falsy tp \<and> n < 0 then Inl ValueError
      else Inr \<lparr>n_arms = n,
                true_probs = (if falsy tp then map draws [0..<nat n] else supplied tp),
                counts = replicate (nat n) 0, values = replicate (nat n) 0,
                epsilon = eps, explore_count = 0, exploit_count = 0\<rparr>)
   \<and> Thompson_init n initial_alpha initial_beta tp draws =
     (if falsy tp \<and> n < 0 then Inl ValueError
      else Inr \<lparr>n_arms = n,
                true_probs = (if falsy tp then map draws [0..<nat n] else supplied tp),
                counts = replicate (nat n) 0, values = replicate (nat n) 0,
                alphas = replicate (nat n) initial_alpha,
                betas = replicate (nat n) initial_beta\<rparr>)"
  by (simp add: UCB1_init_def EpsilonGreedy_init_def Thompson_init_def BaseBandit_init_eq)

text \<open>
  The three cases at concrete arguments: a negative size with no list raises; three
  probabilities, one of them 7, with \<open>epsilon = 3/2\<close> for two arms are stored; priors
  \<open>-1\<close> and \<open>0\<close> are stored.
\<close>

theorem construction_unvalidated_witness:
  "UCB1_init (- 1) None half_draws = Inl ValueError
   \<and> EpsilonGreedy_init 2 (3 / 2) (Some [7, 1 / 2, 1 / 4]) half_draws
       = Inr \<lparr>n_arms = 2, true_probs = [7, 1 / 2, 1 / 4], counts = [0, 0], values = [0, 0],
              epsilon = 3 / 2, explore_count = 0, exploit_count = 0\<rparr>
   \<and> Thompson_init 2 (- 1) 0 None half_draws
       = Inr \<lparr>n_arms = 2, true_probs = [1 / 2, 1 / 2], counts = [0, 0], values = [0, 0],
              alphas = [- 1, - 1], betas = [0, 0]\<rparr>"
  using construction_unvalidated[of "- 1" None half_draws "3 / 2" 1 1]
    construction_unvalidated[of 2 "Some [7, 1 / 2, 1 / 4]" half_draws "3 / 2" 1 1]
    construction_unvalidated[of 2 None half_draws 0 "- 1" 0]
  by (simp add: falsy_def supplied_def half_draws_def replicate_small upt_small)

text \<open>
  Claim C10. Every constructor treats the empty list exactly as it treats \<^verbatim>\<open>None\<close>.
  For a size the sampler accepts (\<open>0 \<le> n_arms\<close>) construction of the base class and
  of each of the three strategies with the empty list returns an instance, and what the
  instance stores as \<^verbatim>\<open>true_probs\<close> is the list of \<open>n_arms\<close> sampled values, each
  within \<open>[0.1, 0.9]\<close> when the generator's outputs are: the supplied empty list is
  discarded without complaint.
\<close>

theorem empty_true_probs_sampled:
  "BaseBandit_init n (Some []) draws = BaseBandit_init n None draws
   \<and> EpsilonGreedy_init n eps (Some []) draws = EpsilonGreedy_init n eps None draws
   \<and> UCB1_init n (Some []) draws = UCB1_init n None draws
   \<and> Thompson_init n a0 b0 (Some []) draws = Thompson_init n a0 b0 None draws
   \<and> (0 \<le> n \<longrightarrow>
        (\<exists>b. BaseBandit_init n (Some []) draws = Inr b
           \<and> true_probs b = map draws [0..<nat n]
           \<and> length (true_probs b) = nat n
           \<and> ((\<forall>k. 1 / 10 \<le> draws k \<and> draws k \<le> 9 / 10)
                \<longrightarrow> list_all (\<lambda>p. 1 / 10 \<le> p \<and> p \<le> 9 / 10) (true_probs b)))
      \<and> (\<exists>e. EpsilonGreedy_init n eps (Some []) draws = Inr e
           \<and> true_probs e = map draws [0..<nat n]
           \<and> length (true_probs e) = nat n
           \<and> ((\<forall>k. 1 / 10 \<le> draws k \<and> draws k \<le> 9 / 10)
                \<longrightarrow> list_all (\<lambda>p. 1 / 10 \<le> p \<and> p \<le> 9 / 10) (true_probs e)))
      \<and> (\<exists>c. UCB1_init n (Some []) draws = Inr c
           \<and> true_probs c = map draws [0..<nat n]
           \<and> length (true_probs c) = nat n
           \<and> ((\<forall>k. 1 / 10 \<le> draws k \<and> draws k \<le> 9 / 10)
                \<longrightarrow> list_all (\<lambda>p. 1 / 10 \<le> p \<and> p \<le> 9 / 10) (true_probs c)))
      \<and> (\<exists>t. Thompson_init n a0 b0 (Some []) draws = Inr t
           \<and> true_probs t = map draws [0..<nat n]
           \<and> length (true_probs t) = nat n
           \<and> ((\<forall>k. 1 / 10 \<le> draws k \<and> draws k \<le> 9 / 10)
                \<longrightarrow> list_all (\<lambda>p. 1 / 10 \<le> p \<and> p \<le> 9 / 10) (true_probs t))))"
proof -
  have falsy: "falsy (Some [])" "falsy None" by (simp_all add: falsy_def)
  have same: "BaseBandit_init n (Some []) draws = BaseBandit_init n None draws"
    by (simp add: BaseBandit_init_eq falsy)
  have base: "BaseBandit_init n (Some []) draws
      = Inr \<lparr>n_arms = n, true_probs = map draws [0..<nat n],
             counts = replicate (nat n) 0, values = replicate (nat n) 0\<rparr>" if "0 \<le> n"
    using that by (simp add: BaseBandit_init_eq falsy)
  have range: "list_all (\<lambda>p. 1 / 10 \<le> p \<and> p \<le> 9 / 10) (map draws [0..<nat n])"
    if "\<forall>k. 1 / 10 \<le> draws k \<and> draws k \<le> 9 / 10"
    using that by (simp add: list_all_iff)
  show ?thesis
  proof (intro conjI impI)
    show "BaseBandit_init n (Some []) draws = BaseBandit_init n None draws" by (rule same)
    show "EpsilonGreedy_init n eps (Some []) draws = EpsilonGreedy_init n eps None draws"
      by (simp add: EpsilonGreedy_init_def same)
    show "UCB1_init n (Some []) draws = UCB1_init n None draws"
      by (simp add: UCB1_init_def same)
    show "Thompson_init n a0 b0 (Some []) draws = Thompson_init n a0 b0 None draws"
      by (simp add: Thompson_init_def same)
  next
    assume n: "0 \<le> n"
    show "\<exists>b. BaseBandit_init n (Some []) draws = Inr b
           \<and> true_probs b = map draws [0..<nat n]
           \<and> length (true_probs b) = nat n
           \<and> ((\<forall>k. 1 / 10 \<le> draws k \<and> draws k \<le> 9 / 10)
                \<longrightarrow> list_all (\<lambda>p. 1 / 10 \<le> p \<and> p \<le> 9 / 10) (true_probs b))"
      using range by (simp add: base[OF n])
  next
    assume n: "0 \<le> n"
    show "\<exists>e. EpsilonGreedy_init n eps (Some []) draws = Inr e
           \<and> true_probs e = map draws [0..<nat n]
           \<and> length (true_probs e) = nat n
           \<and> ((\<forall>k. 1 / 10 \<le> draws k \<and> draws k \<le> 9 / 10)
                \<longrightarrow> list_all (\<lambda>p. 1 / 10 \<le> p \<and> p \<le> 9 / 10) (true_probs e))"
      using range by (simp add: EpsilonGreedy_init_def base[OF n])
  next
    assume n: "0 \<le> n"
    show "\<exists>c. UCB1_init n (Some []) draws = Inr c
           \<and> true_probs c = map draws [0..<nat n]
           \<and> length (true_probs c) = nat n
           \<and> ((\<forall>k. 1 / 10 \<le> draws k \<and> draws k \<le> 9 / 10)
                \<longrightarrow> list_all (\<lambda>p. 1 / 10 \<le> p \<and> p \<le> 9 / 10) (true_probs c))"
      using range by (simp add: UCB1_init_def base[OF n])
  next
    assume n: "0 \<le> n"
    show "\<exists>t. Thompson_init n a0 b0 (Some []) draws = Inr t
           \<and> true_probs t = map draws [0..<nat n]
           \<and> length (true_probs t) = nat n
           \<and> ((\<forall>k. 1 / 10 \<le> draws k \<and> draws k \<le> 9 / 10)
                \<longrightarrow> list_all (\<lambda>p. 1 / 10 \<le> p \<and> p \<le> 9 / 10) (true_probs t))"
      using range by (simp add: Thompson_init_def base[OF n])
  qed
qed

text \<open>
  Two arms, the generator handing out one half: each constructor, given the empty list,
  returns an instance whose \<^verbatim>\<open>true_probs\<close> is the two sampled values.
\<close>

theorem empty_true_probs_sampled_witness:
  "(0::int) \<le> 2
   \<and> (\<forall>k. 1 / 10 \<le> half_draws k \<and> half_draws k \<le> 9 / 10)
   \<and> BaseBandit_init 2 (Some []) half_draws
       = Inr \<lparr>n_arms = 2, true_probs = [1 / 2, 1 / 2], counts = [0, 0], values = [0, 0]\<rparr>
   \<and> EpsilonGreedy_init 2 0 (Some []) half_draws
       = Inr \<lparr>n_arms = 2, true_probs = [1 / 2, 1 / 2], counts = [0, 0], values = [0, 0],
              epsilon = 0, explore_count = 0, exploit_count = 0\<rparr>
   \<and> UCB1_init 2 (Some []) half_draws
       = Inr \<lparr>n_arms = 2, true_probs = [1 / 2, 1 / 2], counts = [0, 0], values = [0, 0],
              total_pulls = 0\<rparr>
   \<and> Thompson_init 2 1 1 (Some []) half_draws
       = Inr \<lparr>n_arms = 2, true_probs = [1 / 2, 1 / 2], counts = [0, 0], values = [0, 0],
              alphas = [1, 1], betas = [1, 1]\<rparr>
   \<and> Thompson_init 2 1 1 (Some []) half_draws = Thompson_init 2 1 1 None half_draws"
  using empty_true_probs_sampled[of 2 half_draws 0 1 1]
  by (simp add: half_draws_def BaseBandit_init_def EpsilonGreedy_init_def UCB1_init_def
        Thompson_init_def np_random_uniform_def replicate_small upt_small)


section \<open>Arms out of range\<close>

lemma index_outside:
  assumes "arm_outside b arm" "length xs = nat (n_arms b)"
  shows "py_index xs arm = Inl IndexError"
  using assms by (intro py_index_outside) (auto simp: arm_outside_def)

lemma BaseBandit_update_outside:
  "stats_ok b \<Longrightarrow> arm_outside b arm \<Longrightarrow> BaseBandit_update b arm reward = (Inl IndexError, b)"
  using index_outside[of b arm "counts b"] by (simp add: BaseBandit_update_def stats_ok_def)

lemma BaseBandit_reward_outside:
  "probs_ok b \<Longrightarrow> arm_outside b arm \<Longrightarrow> BaseBandit_reward b arm u = (Inl IndexError, b)"
  using index_outside[of b arm "true_probs b"] by (simp add: BaseBandit_reward_def probs_ok_def)

text \<open>A negative arm in \<open>[-n_arms, 0)\<close> is the arm \<open>n_arms + arm\<close>, by list subscripting.\<close>

lemma BaseBandit_update_negative:
  assumes "stats_ok b" "- n_arms b \<le> arm" "arm < 0"
  shows "BaseBandit_update b arm reward = BaseBandit_update b (n_arms b + arm) reward"
proof -
  have idx: "py_index xs arm = py_index xs (n_arms b + arm)"
    if "length xs = nat (n_arms b)" for xs :: "'b list"
    using that assms(2,3) by (auto simp: py_index_def)
  have "py_index (counts b) arm = py_index (counts b) (n_arms b + arm)"
    and "py_index (values b) arm = py_index (values b) (n_arms b + arm)"
    using assms(1) by (simp_all add: idx stats_ok_def)
  then show ?thesis
    by (simp add: BaseBandit_update_def Let_def split: sum.splits)
qed

text \<open>
  Claim C3 as stated fails for negative arms: on a fresh two-armed instance the arm
  \<open>-1\<close> is outside \<open>[0, n_arms)\<close>, yet \<^verbatim>\<open>update(-1, 1)\<close> returns and has changed the
  count and the value of arm 1, and \<^verbatim>\<open>reward(-1)\<close> returns a reward.
\<close>

theorem index_error_counterexample:
  "\<not> (0 \<le> (- 1 :: int) \<and> - 1 < n_arms two_arms)
   \<and> BaseBandit_update two_arms (- 1) 1 = (Inr (), two_arms\<lparr>counts := [0, 1], values := [0, 1]\<rparr>)
   \<and> BaseBandit_reward two_arms (- 1) 0 = (Inr 1, two_arms)"
  by (simp add: two_arms_def BaseBandit_update_def BaseBandit_reward_def py_index_def Let_def)

text \<open>
  Claim C3, amended. On an instance whose lists have \<open>n_arms\<close> entries, for every
  integer arm with \<open>arm \<ge> n_arms\<close> or \<open>arm < -n_arms\<close>, \<^verbatim>\<open>update(arm, r)\<close> of every
  strategy and \<^verbatim>\<open>reward(arm)\<close> raise IndexError at their first subscript and leave the
  whole instance as it was. (An arm in \<open>[-n_arms, 0)\<close> is accepted and addresses arm
  \<open>n_arms + arm\<close>.)
\<close>

theorem index_error_atomic:
  fixes b :: "'a BaseBandit_scheme" and e :: EpsilonGreedy and c :: UCB1 and t :: Thompson
  shows "(stats_ok b \<and> arm_outside b arm \<longrightarrow> BaseBandit_update b arm reward = (Inl IndexError, b))
   \<and> (probs_ok b \<and> arm_outside b arm \<longrightarrow> BaseBandit_reward b arm u = (Inl IndexError, b))
   \<and> (stats_ok e \<and> arm_outside e arm \<longrightarrow> EpsilonGreedy_update e arm reward = (Inl IndexError, e))
   \<and> (stats_ok c \<and> arm_outside c arm \<longrightarrow> UCB1_update c arm reward = (Inl IndexError, c))
   \<and> (stats_ok t \<and> arm_outside t arm \<longrightarrow> Thompson_update t arm reward = (Inl IndexError, t))"
  by (simp add: BaseBandit_update_outside BaseBandit_reward_outside EpsilonGreedy_update_def
        UCB1_update_def Thompson_update_def)

theorem index_error_atomic_witness:
  "stats_ok two_arms \<and> probs_ok two_arms \<and> arm_outside two_arms 2 \<and> arm_outside two_arms (- 3)
   \<and> BaseBandit_update two_arms 2 1 = (Inl IndexError, two_arms)
   \<and> BaseBandit_reward two_arms (- 3) 0 = (Inl IndexError, two_arms)
   \<and> stats_ok two_arms_eps \<and> arm_outside two_arms_eps 2
   \<and> EpsilonGreedy_update two_arms_eps 2 1 = (Inl IndexError, two_arms_eps)
   \<and> stats_ok two_arms_ucb \<and> arm_outside two_arms_ucb 5
   \<and> UCB1_update two_arms_ucb 5 0 = (Inl IndexError, two_arms_ucb)
   \<and> stats_ok two_arms_thompson \<and> arm_outside two_arms_thompson (- 3)
   \<and> Thompson_update two_arms_thompson (- 3) 1 = (Inl IndexError, two_arms_thompson)"
  using index_error_atomic[of two_arms 2 1 0 two_arms_eps two_arms_ucb two_arms_thompson]
    index_error_atomic[of two_arms "- 3" 1 0 two_arms_eps two_arms_ucb two_arms_thompson]
    index_error_atomic[of two_arms 5 0 0 two_arms_eps two_arms_ucb two_arms_thompson]
  by (simp add: two_arms_def two_arms_eps_def two_arms_ucb_def two_arms_thompson_def
        stats_ok_def probs_ok_def arm_outside_def)

section \<open>np.argmax and the epsilon-greedy choice\<close>

text \<open>
  The scan, started after a prefix \<open>ys\<close> whose first maximum is \<open>best\<close> at \<open>besti\<close>, ends
  at the first maximum of the whole list.
\<close>

lemma argmax_scan_first_max:
  fixes ys :: "'a::linorder list"
  assumes "besti < length ys" "ys ! besti = best"
    and "\<forall>j<length ys. ys ! j \<le> best" "\<forall>j<besti. ys ! j < best"
  shows "argmax_scan (<) xs (length ys) best besti < length (ys @ xs)
     \<and> (\<forall>j<length (ys @ xs).
           (ys @ xs) ! j \<le> (ys @ xs) ! argmax_scan (<) xs (length ys) best besti)
     \<and> (\<forall>j<argmax_scan (<) xs (length ys) best besti.
           (ys @ xs) ! j < (ys @ xs) ! argmax_scan (<) xs (length ys) best besti)"
  using assms
proof (induction xs arbitrary: ys best besti)
  case Nil
  then show ?case by simp
next
  case (Cons x xs)
  show ?case
  proof (cases "best < x")
    case True
    have "length ys < length (ys @ [x])" "(ys @ [x]) ! length ys = x" by simp_all
    moreover have "\<forall>j<length (ys @ [x]). (ys @ [x]) ! j \<le> x"
      using Cons.prems(3) True by (auto simp: nth_append less_Suc_eq intro: less_imp_le order_trans)
    moreover have "\<forall>j<length ys. (ys @ [x]) ! j < x"
      using Cons.prems(3) True by (auto simp: nth_append intro: le_less_trans)
    ultimately show ?thesis
      using Cons.IH[of "length ys" "ys @ [x]" x] True by simp
  next
    case False
    have "besti < length (ys @ [x])" "(ys @ [x]) ! besti = best"
      using Cons.prems(1,2) by (simp_all add: nth_append)
    moreover have "\<forall>j<length (ys @ [x]). (ys @ [x]) ! j \<le> best"
      using Cons.prems(3) False by (auto simp: nth_append less_Suc_eq)
    moreover have "\<forall>j<besti. (ys @ [x]) ! j < best"
      using Cons.prems(1,4) by (auto simp: nth_append)
    ultimately show ?thesis
      using Cons.IH[of besti "ys @ [x]" best] False by simp
  qed
qed

text \<open>On a non-empty list \<open>np_argmax\<close> is the lowest index that attains the maximum.\<close>

lemma np_argmax_first_max:
  fixes xs :: "'a::linorder list"
  assumes "xs \<noteq> []"
  shows "\<exists>k. np_argmax (<) xs = Inr (int k) \<and> k < length xs
     \<and> (\<forall>j<length xs. xs ! j \<le> xs ! k) \<and> (\<forall>j<k. xs ! j < xs ! k)"
proof -
  from assms obtain x rest where xs: "xs = x # rest" by (cases xs) auto
  have "argmax_scan (<) rest (length [x]) x 0 < length ([x] @ rest)
     \<and> (\<forall>j<length ([x] @ rest).
           ([x] @ rest) ! j \<le> ([x] @ rest) ! argmax_scan (<) rest (length [x]) x 0)
     \<and> (\<forall>j<argmax_scan (<) rest (length [x]) x 0.
           ([x] @ rest) ! j < ([x] @ rest) ! argmax_scan (<) rest (length [x]) x 0)"
    by (rule argmax_scan_first_max) simp_all
  then show ?thesis
    by (simp add: xs np_argmax_def)
qed

text \<open>
  Whenever the draw is strictly above \<open>epsilon\<close>, \<^verbatim>\<open>pull()\<close> takes the exploit branch and
  returns the lowest index of the maximum of \<open>values\<close>. With \<open>epsilon = 0\<close> this covers
  every draw in \<open>(0, 1)\<close>.
\<close>

lemma EpsilonGreedy_pull_exploit:
  assumes "epsilon b < u" "values b \<noteq> []"
  shows "\<exists>k. EpsilonGreedy_pull b u k' = (Inr (int k), b\<lparr>exploit_count := exploit_count b + 1\<rparr>)
     \<and> k < length (values b)
     \<and> (\<forall>j<length (values b). values b ! j \<le> values b ! k)
     \<and> (\<forall>j<k. values b ! j < values b ! k)"
  using np_argmax_first_max[OF assms(2)] assms(1)
  by (auto simp: EpsilonGreedy_pull_def Let_def)

text \<open>
  Claim C4 at the draw \<open>u = 0\<close>, which \<^verbatim>\<open>random.random()\<close> can return.
  \<^verbatim>\<open>EpsilonGreedy(2, 0.0, [1.0, 0.0])\<close> after \<^verbatim>\<open>update(0, 1)\<close> has values \<open>[1, 0]\<close>, whose
  arg-max is arm 0. With \<open>epsilon = 0\<close> and \<open>u = 0\<close> the test \<^verbatim>\<open>u > epsilon\<close> is false:
  \<^verbatim>\<open>pull()\<close> takes the explore branch, counts an exploration and returns the arm the
  generator picks, here arm 1.
\<close>

theorem epsilon_zero_explores:
  "EpsilonGreedy_init 2 0 (Some [1, 0]) half_draws
     = Inr \<lparr>n_arms = 2, true_probs = [1, 0], counts = [0, 0], values = [0, 0],
            epsilon = 0, explore_count = 0, exploit_count = 0\<rparr>
   \<and> EpsilonGreedy_update
       \<lparr>n_arms = 2, true_probs = [1, 0], counts = [0, 0], values = [0, 0],
        epsilon = 0, explore_count = 0, exploit_count = 0\<rparr> 0 1 = (Inr (), two_arms_eps)
   \<and> epsilon two_arms_eps = 0
   \<and> np_argmax (<) (values two_arms_eps) = Inr 0
   \<and> EpsilonGreedy_pull two_arms_eps 0 1 = (Inr 1, two_arms_eps\<lparr>explore_count := 1\<rparr>)"
  by (simp add: EpsilonGreedy_init_def BaseBandit_init_def replicate_small
        EpsilonGreedy_update_def BaseBandit_update_def py_index_def Let_def
        two_arms_eps_def np_argmax_def EpsilonGreedy_pull_def randrange_def)

section \<open>UCB1: scores and the choice of arm\<close>

text \<open>
  With at least one pull counted and a positive count the bonus is defined: the
  logarithm is not negative, the divisor is not zero, the root's argument is not
  negative.
\<close>

lemma ucb_bonus_defined:
  assumes "1 \<le> pulls" "1 \<le> c"
  shows "ucb_bonus pulls c = Inr (sqrt (2 * ln (real_of_int pulls) / real_of_int c))"
proof -
  have "0 \<le> ln (real_of_int pulls)" using assms(1) by simp
  then have "\<not> 2 * ln (real_of_int pulls) / real_of_int c < 0"
    using assms(2) by (simp add: not_less)
  then show ?thesis using assms
    by (simp add: ucb_bonus_def np_log_def np_divide_def np_sqrt_def)
qed

lemma UCB1_scores_eq:
  assumes "stats_ok b" "1 \<le> total_pulls b" "\<forall>i\<in>set arms. 0 \<le> i \<and> i < n_arms b"
  shows "UCB1_scores b arms acc = Inr (acc @ map (\<lambda>i. ucb_score b (nat i)) arms)"
  using assms(3)
proof (induction arms arbitrary: acc)
  case Nil
  then show ?case by simp
next
  case (Cons i arms)
  then have i: "0 \<le> i" "i < n_arms b" by auto
  with assms(1) have idx: "py_index (counts b) i = Inr (nat i)" "py_index (values b) i = Inr (nat i)"
    by (simp_all add: stats_ok_def py_index_nonneg)
  have "0 \<le> counts b ! nat i"
    using assms(1) i by (auto simp: stats_ok_def list_all_length)
  then have bonus: "counts b ! nat i \<noteq> 0 \<Longrightarrow>
      ucb_bonus (total_pulls b) (counts b ! nat i)
        = Inr (sqrt (2 * ln (real_of_int (total_pulls b)) / real_of_int (counts b ! nat i)))"
    using assms(2) by (intro ucb_bonus_defined) auto
  show ?case
    using Cons idx bonus by (simp add: ucb_score_def)
qed

lemma UCB1_pull_eq:
  assumes "ucb_ok b"
  shows "UCB1_pull b =
     (case np_argmax score_less
             (map (ucb_score (b\<lparr>total_pulls := total_pulls b + 1\<rparr>)) [0..<nat (n_arms b)]) of
        Inl e \<Rightarrow> (Inl e, b\<lparr>total_pulls := total_pulls b + 1\<rparr>)
      | Inr arm \<Rightarrow> (Inr arm, b\<lparr>total_pulls := total_pulls b + 1\<rparr>))"
proof -
  let ?b1 = "b\<lparr>total_pulls := total_pulls b + 1\<rparr>"
  have "stats_ok ?b1" "1 \<le> total_pulls ?b1"
    using assms by (simp_all add: ucb_ok_def stats_ok_def)
  moreover have "\<forall>i\<in>set (py_range (n_arms ?b1)). 0 \<le> i \<and> i < n_arms ?b1"
    by (auto simp: py_range_def)
  ultimately have "UCB1_scores ?b1 (py_range (n_arms ?b1)) []
      = Inr ([] @ map (\<lambda>i. ucb_score ?b1 (nat i)) (py_range (n_arms ?b1)))"
    by (rule UCB1_scores_eq)
  then show ?thesis
    by (simp add: UCB1_pull_def Let_def py_range_def comp_def)
qed

lemma argmax_scan_infinity: "argmax_scan score_less xs i Infinity besti = besti"
  by (induction xs arbitrary: i) simp_all

lemma argmax_scan_first_infinity:
  assumes "k < length xs" "xs ! k = Infinity" "\<forall>j<k. xs ! j \<noteq> Infinity" "best \<noteq> Infinity"
  shows "argmax_scan score_less xs i best besti = i + k"
  using assms
proof (induction xs arbitrary: i best besti k)
  case Nil
  then show ?case by simp
next
  case (Cons x xs)
  obtain y where best: "best = Finite y" using Cons.prems(4) by (cases best) auto
  show ?case
  proof (cases k)
    case 0
    then show ?thesis using Cons.prems(2) best by (simp add: argmax_scan_infinity)
  next
    case (Suc k')
    from Cons.prems(3) Suc have "x \<noteq> Infinity" by auto
    then obtain z where x: "x = Finite z" by (cases x) auto
    have k': "k' < length xs" "xs ! k' = Infinity" "\<forall>j<k'. xs ! j \<noteq> Infinity"
      using Cons.prems(1,2,3) Suc by auto
    show ?thesis
      using Cons.IH[OF k', of "Finite z" "Suc i" i] Cons.IH[OF k', of "Finite y" "Suc i" besti]
      by (simp add: x best Suc)
  qed
qed

lemma np_argmax_first_infinity:
  assumes "k < length xs" "xs ! k = Infinity" "\<forall>j<k. xs ! j \<noteq> Infinity"
  shows "np_argmax score_less xs = Inr (int k)"
proof (cases xs)
  case Nil
  with assms(1) show ?thesis by simp
next
  case (Cons x rest)
  show ?thesis
  proof (cases k)
    case 0
    then show ?thesis using assms(2) Cons by (simp add: np_argmax_def argmax_scan_infinity)
  next
    case (Suc k')
    from assms(3) Suc Cons have "x \<noteq> Infinity" by auto
    moreover have "k' < length rest" "rest ! k' = Infinity" "\<forall>j<k'. rest ! j \<noteq> Infinity"
      using assms Suc Cons by auto
    ultimately have "argmax_scan score_less rest 1 x 0 = 1 + k'"
      by (intro argmax_scan_first_infinity) auto
    then show ?thesis by (simp add: np_argmax_def Cons Suc)
  qed
qed

lemma np_argmax_in_range:
  assumes "xs \<noteq> []"
  shows "\<exists>k<length xs. np_argmax lt xs = Inr (int k)"
proof -
  have scan: "argmax_scan lt ys i best besti < i + length ys" if "besti < i" for ys i best besti
    using that
  proof (induction ys arbitrary: i best besti)
    case Nil
    then show ?case by simp
  next
    case (Cons y ys)
    have "argmax_scan lt ys (Suc i) y i < Suc i + length ys"
      by (rule Cons.IH) simp
    moreover have "argmax_scan lt ys (Suc i) best besti < Suc i + length ys"
      by (rule Cons.IH) (use Cons.prems in simp)
    ultimately show ?case by simp
  qed
  from assms obtain x rest where "xs = x # rest" by (cases xs) auto
  then show ?thesis using scan[of 0 1 rest x] by (simp add: np_argmax_def)
qed

lemma UCB1_pull_unpulled:
  assumes "ucb_ok b" "k < nat (n_arms b)" "counts b ! k = 0" "\<forall>j<k. counts b ! j \<noteq> 0"
  shows "UCB1_pull b = (Inr (int k), b\<lparr>total_pulls := total_pulls b + 1\<rparr>)"
proof -
  let ?b1 = "b\<lparr>total_pulls := total_pulls b + 1\<rparr>"
  let ?scores = "map (ucb_score ?b1) [0..<nat (n_arms b)]"
  have "k < length ?scores" using assms(2) by simp
  moreover have "?scores ! k = Infinity" using assms(2,3) by (simp add: ucb_score_def)
  moreover have "\<forall>j<k. ?scores ! j \<noteq> Infinity"
    using assms(2,4) by (auto simp: ucb_score_def)
  ultimately have "np_argmax score_less ?scores = Inr (int k)"
    by (rule np_argmax_first_infinity)
  then show ?thesis by (simp add: UCB1_pull_eq[OF assms(1)])
qed

text \<open>What \<^verbatim>\<open>update\<close> does to a well-formed instance, for any arm at all.\<close>

lemma py_index_Inr: "py_index xs i = Inr j \<Longrightarrow> j < length xs"
  by (auto simp: py_index_def split: if_splits)

lemma py_index_same_length: "length xs = length ys \<Longrightarrow> py_index xs i = py_index ys i"
  by (simp add: py_index_def)

lemma BaseBandit_update_cases:
  assumes "stats_ok b"
  shows "BaseBandit_update b arm reward = (Inl IndexError, b)
     \<or> (\<exists>j<length (counts b). py_index (counts b) arm = Inr j \<and> BaseBandit_update b arm reward =
           (Inr (), b\<lparr>counts := (counts b)[j := counts b ! j + 1],
                      values := (values b)[j := values b ! j
                         + (real_of_int reward - values b ! j) / real_of_int (counts b ! j + 1)]\<rparr>))"
proof (cases "py_index (counts b) arm")
  case (Inl e)
  then have "e = IndexError" by (auto simp: py_index_def split: if_splits)
  with Inl show ?thesis by (simp add: BaseBandit_update_def)
next
  case (Inr j)
  then have j: "j < length (counts b)" by (rule py_index_Inr)
  have "py_index (values b) arm = Inr j"
    using Inr assms py_index_same_length[of "values b" "counts b" arm] by (simp add: stats_ok_def)
  moreover have "0 \<le> counts b ! j"
    using assms j by (auto simp: stats_ok_def list_all_length)
  ultimately have "BaseBandit_update b arm reward =
           (Inr (), b\<lparr>counts := (counts b)[j := counts b ! j + 1],
                      values := (values b)[j := values b ! j
                         + (real_of_int reward - values b ! j) / real_of_int (counts b ! j + 1)]\<rparr>)"
    using Inr j by (simp add: BaseBandit_update_def Let_def)
  with j Inr show ?thesis by blast
qed

lemma BaseBandit_update_keeps_stats:
  assumes "stats_ok b"
  shows "stats_ok (snd (BaseBandit_update b arm reward))
     \<and> n_arms (snd (BaseBandit_update b arm reward)) = n_arms b
     \<and> true_probs (snd (BaseBandit_update b arm reward)) = true_probs b"
  using BaseBandit_update_cases[OF assms, of arm reward] assms
  by (auto simp: stats_ok_def list_all_length nth_list_update)

lemma BaseBandit_update_total_pulls:
  fixes b :: UCB1
  shows "total_pulls (snd (BaseBandit_update b arm reward)) = total_pulls b"
  by (simp add: BaseBandit_update_def Let_def split: sum.splits)

lemma snd_UCB1_pull: "snd (UCB1_pull b) = b\<lparr>total_pulls := total_pulls b + 1\<rparr>"
  by (simp add: UCB1_pull_def Let_def split: sum.splits)

lemma UCB1_init_ok:
  assumes "UCB1_init n tp draws = Inr b"
  shows "ucb_ok b" "n_arms b = n" "counts b = replicate (nat n) 0" "total_pulls b = 0"
  using assms
  by (auto simp: UCB1_init_def BaseBandit_init_eq ucb_ok_def stats_ok_def list_all_length
           split: if_splits)

lemma UCB1_call_ok:
  assumes "ucb_ok b"
  shows "ucb_ok (UCB1_call b c) \<and> n_arms (UCB1_call b c) = n_arms b"
proof (cases c)
  case Pull
  then show ?thesis using assms by (simp add: snd_UCB1_pull ucb_ok_def stats_ok_def)
next
  case (Reward arm u)
  then show ?thesis using assms by (simp add: BaseBandit_reward_def split: sum.splits)
next
  case (Update arm reward)
  then show ?thesis
    using assms BaseBandit_update_keeps_stats[of b arm reward]
    by (simp add: UCB1_update_def ucb_ok_def BaseBandit_update_total_pulls)
next
  case Rmse
  then show ?thesis using assms by (simp add: BaseBandit_rmse_def Let_def split: sum.splits)
qed

lemma UCB1_calls_ok:
  "ucb_ok b \<Longrightarrow> ucb_ok (UCB1_calls b calls) \<and> n_arms (UCB1_calls b calls) = n_arms b"
  unfolding UCB1_calls_def
proof (induction calls arbitrary: b)
  case Nil
  then show ?case by simp
next
  case (Cons c calls)
  from UCB1_call_ok[OF Cons.prems, of c] Cons.IH[of "UCB1_call b c"]
  show ?case by simp
qed

lemma UCB1_rounds_unpulled:
  assumes "ucb_ok b" "k + length rs \<le> nat (n_arms b)" "\<forall>j<k. counts b ! j \<noteq> 0"
    and "\<forall>j. k \<le> j \<and> j < nat (n_arms b) \<longrightarrow> counts b ! j = 0"
  shows "fst (UCB1_rounds b rs) = Inr (map int [k..<k + length rs])"
  using assms
proof (induction rs arbitrary: b k)
  case Nil
  then show ?case by simp
next
  case (Cons r rs)
  let ?b1 = "b\<lparr>total_pulls := total_pulls b + 1\<rparr>"
  define b2 where "b2 = ?b1\<lparr>counts := (counts ?b1)[nat (int k) := counts ?b1 ! nat (int k) + 1],
                values := (values ?b1)[nat (int k) := values ?b1 ! nat (int k)
                   + (real_of_int r - values ?b1 ! nat (int k))
                       / real_of_int (counts ?b1 ! nat (int k) + 1)]\<rparr>"
  have k: "k < nat (n_arms b)" using Cons.prems(2) by simp
  have pull: "UCB1_pull b = (Inr (int k), ?b1)"
    using Cons.prems(1) k Cons.prems(4,3) by (intro UCB1_pull_unpulled) auto
  have ok1: "stats_ok ?b1" using Cons.prems(1) by (simp add: ucb_ok_def stats_ok_def)
  have upd: "UCB1_update ?b1 (int k) r = (Inr (), b2)"
    unfolding UCB1_update_def b2_def using k by (intro BaseBandit_update_in_range[OF ok1]) auto
  have ok2: "ucb_ok b2"
    using BaseBandit_update_keeps_stats[OF ok1, of "int k" r] upd Cons.prems(1)
    by (simp add: UCB1_update_def ucb_ok_def b2_def)
  have len: "k < length (counts b)" using Cons.prems(1) k by (simp add: ucb_ok_def stats_ok_def)
  have c2: "counts b2 = (counts b)[k := 1]"
    using Cons.prems(4) k by (simp add: b2_def)
  have "fst (UCB1_rounds b2 rs) = Inr (map int [Suc k..<Suc k + length rs])"
  proof (rule Cons.IH[OF ok2])
    show "Suc k + length rs \<le> nat (n_arms b2)" using Cons.prems(2) by (simp add: b2_def)
    show "\<forall>j<Suc k. counts b2 ! j \<noteq> 0"
      using Cons.prems(3) len by (auto simp: c2 nth_list_update)
    show "\<forall>j. Suc k \<le> j \<and> j < nat (n_arms b2) \<longrightarrow> counts b2 ! j = 0"
      using Cons.prems(4) by (auto simp: c2 b2_def)
  qed
  then obtain b3 where rest: "UCB1_rounds b2 rs = (Inr (map int [Suc k..<Suc k + length rs]), b3)"
    by (cases "UCB1_rounds b2 rs") auto
  have "[k..<k + length (r # rs)] = k # [Suc k..<Suc k + length rs]"
    by (simp add: upt_conv_Cons del: upt_Suc)
  then have "map int [k..<k + length (r # rs)] = int k # map int [Suc k..<Suc k + length rs]"
    by (simp del: upt_Suc)
  moreover have "fst (UCB1_rounds b (r # rs)) = Inr (int k # map int [Suc k..<Suc k + length rs])"
    by (subst UCB1_rounds.simps) (simp add: pull upd rest del: upt_Suc)
  ultimately show ?case by simp
qed

text \<open>
  Claim C5. On a freshly constructed UCB1 instance with four arms, four rounds of
  \<^verbatim>\<open>pull()\<close> followed by \<^verbatim>\<open>update(pulled_arm, r)\<close> pull the arms 0, 1, 2, 3 in this
  order, for all rewards \<open>r1 .. r4\<close> (and whatever \<^verbatim>\<open>true_probs\<close> is): an arm never pulled
  scores infinity, and the first infinity wins.
\<close>

theorem UCB1_cold_start:
  assumes "UCB1_init 4 tp draws = Inr b"
  shows "fst (UCB1_rounds b [r1, r2, r3, r4]) = Inr [0, 1, 2, 3]"
proof -
  note ok = UCB1_init_ok[OF assms]
  have "fst (UCB1_rounds b [r1, r2, r3, r4]) = Inr (map int [0..<0 + length [r1, r2, r3, r4]])"
    by (rule UCB1_rounds_unpulled) (simp_all add: ok)
  then show ?thesis by (simp add: upt_small)
qed

theorem UCB1_cold_start_witness:
  "UCB1_init 4 None half_draws
     = Inr \<lparr>n_arms = 4, true_probs = [1 / 2, 1 / 2, 1 / 2, 1 / 2], counts = [0, 0, 0, 0],
            values = [0, 0, 0, 0], total_pulls = 0\<rparr>
   \<and> fst (UCB1_rounds \<lparr>n_arms = 4, true_probs = [1 / 2, 1 / 2, 1 / 2, 1 / 2],
                       counts = [0, 0, 0, 0], values = [0, 0, 0, 0], total_pulls = 0\<rparr>
             [1, 0, 0, 1]) = Inr [0, 1, 2, 3]"
  using UCB1_cold_start[of None half_draws
      "\<lparr>n_arms = 4, true_probs = [1 / 2, 1 / 2, 1 / 2, 1 / 2],
        counts = [0, 0, 0, 0], values = [0, 0, 0, 0], total_pulls = 0\<rparr>" 1 0 0 1]
  by (simp add: UCB1_init_def BaseBandit_init_def np_random_uniform_def half_draws_def
        replicate_small upt_small)

text \<open>Without arms the score list is empty and \<^verbatim>\<open>np.argmax\<close> raises ValueError.\<close>

lemma UCB1_pull_no_arms:
  assumes "ucb_ok b" "n_arms b \<le> 0"
  shows "UCB1_pull b = (Inl ValueError, b\<lparr>total_pulls := total_pulls b + 1\<rparr>)"
  using assms(2) by (simp add: UCB1_pull_eq[OF assms(1)] np_argmax_def)

text \<open>
  Claim C8. Take a constructed UCB1 instance after any sequence of calls (pulls,
  updates with any arguments, rewards, rmse) and call \<^verbatim>\<open>pull()\<close>. The logarithm is
  taken of \<open>total_pulls + 1 \<ge> 1\<close>. For every arm whose count is not zero the count is at
  least 1 and the bonus is defined; the arms whose count is zero take the infinity
  branch. So the loop yields one score per arm without any error, and with at least one
  arm \<^verbatim>\<open>pull()\<close> returns an arm in \<open>[0, n_arms)\<close>.
\<close>

theorem UCB1_pull_well_defined:
  assumes "UCB1_init n tp draws = Inr b0"
  shows "let b = UCB1_calls b0 calls in
     1 \<le> total_pulls b + 1
     \<and> (\<forall>i<nat n. counts b ! i \<noteq> 0 \<longrightarrow>
           1 \<le> counts b ! i
           \<and> ucb_bonus (total_pulls b + 1) (counts b ! i)
               = Inr (sqrt (2 * ln (real_of_int (total_pulls b + 1)) / real_of_int (counts b ! i))))
     \<and> (\<exists>scores. UCB1_scores (b\<lparr>total_pulls := total_pulls b + 1\<rparr>) (py_range n) [] = Inr scores
           \<and> length scores = nat n)
     \<and> (1 \<le> n \<longrightarrow>
          (\<exists>arm. UCB1_pull b = (Inr arm, b\<lparr>total_pulls := total_pulls b + 1\<rparr>)
             \<and> 0 \<le> arm \<and> arm < n))"
proof -
  define b where "b = UCB1_calls b0 calls"
  let ?b1 = "b\<lparr>total_pulls := total_pulls b + 1\<rparr>"
  have ok: "ucb_ok b" and n: "n_arms b = n"
    using UCB1_calls_ok[OF UCB1_init_ok(1)[OF assms], of calls] UCB1_init_ok(2)[OF assms]
    by (simp_all add: b_def)
  have total: "1 \<le> total_pulls b + 1" using ok by (simp add: ucb_ok_def)
  have cnt: "1 \<le> counts b ! i" if "i < nat n" "counts b ! i \<noteq> 0" for i
  proof -
    have "0 \<le> counts b ! i" using ok n that(1) by (auto simp: ucb_ok_def stats_ok_def list_all_length)
    with that(2) show ?thesis by simp
  qed
  have bonus: "\<forall>i<nat n. counts b ! i \<noteq> 0 \<longrightarrow>
           1 \<le> counts b ! i
           \<and> ucb_bonus (total_pulls b + 1) (counts b ! i)
               = Inr (sqrt (2 * ln (real_of_int (total_pulls b + 1)) / real_of_int (counts b ! i)))"
  proof (intro allI impI conjI)
    fix i assume i: "i < nat n" "counts b ! i \<noteq> 0"
    show "1 \<le> counts b ! i" by (rule cnt[OF i])
    show "ucb_bonus (total_pulls b + 1) (counts b ! i)
               = Inr (sqrt (2 * ln (real_of_int (total_pulls b + 1)) / real_of_int (counts b ! i)))"
      by (rule ucb_bonus_defined[OF total cnt[OF i]])
  qed
  have "stats_ok ?b1" "1 \<le> total_pulls ?b1"
    using ok by (simp_all add: ucb_ok_def stats_ok_def)
  moreover have "\<forall>i\<in>set (py_range n). 0 \<le> i \<and> i < n_arms ?b1"
    using n by (auto simp: py_range_def)
  ultimately have "UCB1_scores ?b1 (py_range n) [] = Inr ([] @ map (\<lambda>i. ucb_score ?b1 (nat i)) (py_range n))"
    by (rule UCB1_scores_eq)
  then have scores: "\<exists>scores. UCB1_scores ?b1 (py_range n) [] = Inr scores \<and> length scores = nat n"
    by (simp add: py_range_def)
  have pull: "\<exists>arm. UCB1_pull b = (Inr arm, ?b1) \<and> 0 \<le> arm \<and> arm < n" if "1 \<le> n"
  proof -
    let ?scores = "map (ucb_score ?b1) [0..<nat (n_arms b)]"
    have "?scores \<noteq> []" using that n by simp
    from np_argmax_in_range[OF this, of score_less]
    obtain k where "k < length ?scores" "np_argmax score_less ?scores = Inr (int k)" by blast
    then show ?thesis using n by (simp add: UCB1_pull_eq[OF ok])
  qed
  show ?thesis
    unfolding Let_def b_def[symmetric] using total bonus scores pull by blast
qed

theorem UCB1_pull_well_defined_witness:
  "UCB1_init 2 None half_draws = Inr two_arms_ucb
   \<and> (1::int) \<le> 2
   \<and> (\<exists>arm. UCB1_pull (UCB1_calls two_arms_ucb [Pull, Update 0 1])
              = (Inr arm, (UCB1_calls two_arms_ucb [Pull, Update 0 1])
                   \<lparr>total_pulls := total_pulls (UCB1_calls two_arms_ucb [Pull, Update 0 1]) + 1\<rparr>)
          \<and> 0 \<le> arm \<and> arm < 2)"
proof -
  have init: "UCB1_init 2 None half_draws = Inr two_arms_ucb"
    by (simp add: UCB1_init_def BaseBandit_init_def np_random_uniform_def half_draws_def
        two_arms_ucb_def replicate_small upt_small)
  from UCB1_pull_well_defined[OF init, of "[Pull, Update 0 1]"] init
  show ?thesis by (simp add: Let_def)
qed

section \<open>The root-mean-square error\<close>

lemma sum_list_zip_nth:
  assumes "length xs = n" "length ys = n"
  shows "sum_list (map f (zip xs ys)) = (\<Sum>i<n. f (xs ! i, ys ! i))"
proof -
  have "sum_list (map f (zip xs ys)) = (\<Sum>i = 0..<length (map f (zip xs ys)). map f (zip xs ys) ! i)"
    by (rule sum_list_sum_nth)
  also have "\<dots> = (\<Sum>i = 0..<n. f (xs ! i, ys ! i))"
    using assms by simp
  finally show ?thesis by (simp add: atLeast0LessThan)
qed

lemma squares_nonneg: "0 \<le> sum_list (map (\<lambda>(est, true). (est - true)\<^sup>2) (ps :: (real \<times> real) list))"
  by (rule sum_list_nonneg) auto

text \<open>
  Claim C9. For an instance with at least one arm whose values and \<^verbatim>\<open>true_probs\<close> have
  \<open>n_arms\<close> entries, \<^verbatim>\<open>rmse()\<close> returns the square root of the mean, over all \<open>n_arms\<close>
  arms, of the squared difference between the estimated mean and the true probability,
  and returns the instance as it was. When the estimated means equal the true
  probabilities it returns 0.
\<close>

theorem rmse_value:
  assumes "1 \<le> n_arms b" "length (values b) = nat (n_arms b)" "probs_ok b"
  shows "BaseBandit_rmse b =
       (Inr (sqrt ((\<Sum>i<nat (n_arms b). (estimated_means b ! i - true_probs b ! i)\<^sup>2)
                   / real_of_int (n_arms b))), b)
     \<and> (estimated_means b = true_probs b \<longrightarrow> BaseBandit_rmse b = (Inr 0, b))"
proof -
  let ?errors = "map (\<lambda>(est, true). (est - true)\<^sup>2) (zip (values b) (true_probs b))"
  have len: "length (true_probs b) = nat (n_arms b)" using assms(3) by (simp add: probs_ok_def)
  have ne: "?errors \<noteq> []" using assms(1,2) len by (auto simp: zip_eq_Nil_iff)
  have lenE: "real (length ?errors) = real_of_int (n_arms b)"
    using assms(1,2) len by simp
  have sumE: "sum_list ?errors = (\<Sum>i<nat (n_arms b). (values b ! i - true_probs b ! i)\<^sup>2)"
    using sum_list_zip_nth[OF assms(2) len, of "\<lambda>(est, true). (est - true)\<^sup>2"] by simp
  have "0 \<le> sum_list ?errors / real (length ?errors)"
    using squares_nonneg[of "zip (values b) (true_probs b)"] by simp
  then have nn: "\<not> sum_list ?errors / real (length ?errors) < 0" by (simp add: not_less)
  have val: "BaseBandit_rmse b = (Inr (sqrt (sum_list ?errors / real (length ?errors))), b)"
    using ne nn by (simp add: BaseBandit_rmse_def estimated_means_def np_mean_def np_sqrt_def Let_def)
  have first: "BaseBandit_rmse b =
       (Inr (sqrt ((\<Sum>i<nat (n_arms b). (estimated_means b ! i - true_probs b ! i)\<^sup>2)
                   / real_of_int (n_arms b))), b)"
    by (simp only: val sumE lenE estimated_means_def)
  have "BaseBandit_rmse b = (Inr 0, b)" if "estimated_means b = true_probs b"
    using that first by (simp add: estimated_means_def)
  with first show ?thesis by blast
qed

text \<open>
  Two arms with values 0 and true probabilities one half: the error is the root of one
  quarter. With true probabilities 0 it is 0.
\<close>

theorem rmse_value_witness:
  "(1::int) \<le> n_arms two_arms \<and> length (values two_arms) = nat (n_arms two_arms)
   \<and> probs_ok two_arms
   \<and> BaseBandit_rmse two_arms = (Inr (sqrt (1 / 4)), two_arms)
   \<and> BaseBandit_rmse (two_arms\<lparr>true_probs := [0, 0]\<rparr>) = (Inr 0, two_arms\<lparr>true_probs := [0, 0]\<rparr>)"
  using rmse_value[of two_arms] rmse_value[of "two_arms\<lparr>true_probs := [0, 0]\<rparr>"]
  by (simp add: two_arms_def probs_ok_def estimated_means_def lessThan_nat_numeral
        lessThan_Suc power2_eq_square)

section \<open>Thompson sampling: warm-up and the posterior\<close>

text \<open>
  One pass of the warm-up loop on a well-formed instance, for an arm in \<open>[0, n_arms)\<close>:
  when \<^verbatim>\<open>true_probs\<close> has an entry for the arm, the pass completes with a reward of 0 or
  1 and leaves the instance \<open>warmed\<close>; when it has none, \<^verbatim>\<open>reward\<close> raises IndexError
  and nothing has changed.
\<close>

lemma warmed_ok:
  assumes "stats_ok t" "posterior_ok t" "j < nat (n_arms t)"
  shows "stats_ok (warmed t j rwd)" "posterior_ok (warmed t j rwd)"
    "n_arms (warmed t j rwd) = n_arms t" "true_probs (warmed t j rwd) = true_probs t"
  using assms
  by (auto simp: warmed_def stats_ok_def posterior_ok_def list_all_length nth_list_update)


lemma warmed_positive:
  assumes "posterior_ok t" "j < nat (n_arms t)" "rwd = 0 \<or> rwd = 1" "all_positive t"
  shows "all_positive (warmed t j rwd)"
  using assms
  by (auto simp: warmed_def all_positive_def posterior_ok_def list_all_length nth_list_update)

lemma BaseBandit_rmse_defined:
  assumes "values b \<noteq> []" "true_probs b \<noteq> []"
  shows "\<exists>x. BaseBandit_rmse b = (Inr x, b)"
proof -
  let ?errors = "map (\<lambda>(est, true). (est - true)\<^sup>2) (zip (values b) (true_probs b))"
  have ne: "?errors \<noteq> []" using assms by (auto simp: zip_eq_Nil_iff)
  have "0 \<le> sum_list ?errors / real (length ?errors)"
    using squares_nonneg[of "zip (values b) (true_probs b)"] by simp
  then have "\<not> sum_list ?errors / real (length ?errors) < 0" by (simp add: not_less)
  then show ?thesis using ne
    by (simp add: BaseBandit_rmse_def estimated_means_def np_mean_def np_sqrt_def Let_def)
qed

lemma snd_BaseBandit_rmse: "snd (BaseBandit_rmse b) = b"
  by (simp add: BaseBandit_rmse_def Let_def split: sum.splits)

lemma warm_up_arm_ok:
  assumes "stats_ok t" "posterior_ok t" "0 \<le> arm" "arm < n_arms t"
    and "arm < int (length (true_probs t))"
  shows "\<exists>rwd s'. (rwd = 0 \<or> rwd = 1)
     \<and> warm_up_arm rnd arm (t, s) = (Inr (), (warmed t (nat arm) rwd, s'))
     \<and> logged_arms s' = logged_arms s @ [arm]"
proof -
  define rwd :: int where "rwd = (if rnd (nat arm) < true_probs t ! nat arm then 1 else 0)"
  define t2 where "t2 = t\<lparr>counts := (counts t)[nat arm := counts t ! nat arm + 1],
                values := (values t)[nat arm := values t ! nat arm
                   + (real_of_int rwd - values t ! nat arm) / real_of_int (counts t ! nat arm + 1)]\<rparr>"
  define t4 where "t4 = t2\<lparr>alphas := (alphas t2)[nat arm := alphas t2 ! nat arm + rwd],
                          betas := (betas t2)[nat arm := betas t2 ! nat arm + (1 - rwd)]\<rparr>"
  have rwd01: "rwd = 0 \<or> rwd = 1" by (simp add: rwd_def)
  have reward: "BaseBandit_reward t arm (rnd (nat arm)) = (Inr rwd, t)"
    using assms(3,5) by (simp add: BaseBandit_reward_def py_index_nonneg rwd_def)
  have upd: "BaseBandit_update t arm rwd = (Inr (), t2)"
    unfolding t2_def by (rule BaseBandit_update_in_range[OF assms(1,3,4)])
  have ia: "py_index (alphas t2) arm = Inr (nat arm)"
    and ib: "py_index (betas t2) arm = Inr (nat arm)"
    using assms(2,3,4) by (simp_all add: t2_def posterior_ok_def py_index_nonneg)
  have t4: "t4 = warmed t (nat arm) rwd"
    by (simp add: t4_def t2_def warmed_def)
  have "values t4 \<noteq> []" "true_probs t4 \<noteq> []"
    using assms(1,3,4,5) by (auto simp: t4_def t2_def stats_ok_def)
  from BaseBandit_rmse_defined[OF this] obtain x where "BaseBandit_rmse t4 = (Inr x, t4)" ..
  note rm = this[unfolded t4_def]
  have "\<exists>s'. warm_up_arm rnd arm (t, s) = (Inr (), (t4, s'))
       \<and> logged_arms s' = logged_arms s @ [arm]"
    unfolding t4_def
    by (simp add: warm_up_arm_def reward upd ia ib rm Let_def log_to_csv_def logged_arms_def)
  with rwd01 t4 show ?thesis by auto
qed

lemma warm_up_arm_short:
  assumes "0 \<le> arm" "\<not> arm < int (length (true_probs t))"
  shows "warm_up_arm rnd arm (t, s) = (Inl IndexError, (t, s))"
proof -
  have "py_index (true_probs t) arm = Inl IndexError"
    using assms by (intro py_index_outside) simp
  then show ?thesis by (simp add: warm_up_arm_def BaseBandit_reward_def)
qed





text \<open>
  \<^verbatim>\<open>Thompson.update\<close> on a well-formed instance, for any arm and any reward: either the
  first subscript raises and nothing has changed, or the arm's count, value and one of
  its two posterior parameters have been updated.
\<close>

lemma Thompson_update_cases:
  assumes "stats_ok t" "posterior_ok t"
  shows "Thompson_update t arm reward = (Inl IndexError, t)
     \<or> (\<exists>j<nat (n_arms t). py_index (counts t) arm = Inr j
          \<and> Thompson_update t arm reward =
           (Inr (), t\<lparr>counts := (counts t)[j := counts t ! j + 1],
                      values := (values t)[j := values t ! j
                         + (real_of_int reward - values t ! j) / real_of_int (counts t ! j + 1)],
                      alphas := (if reward \<noteq> 0 then (alphas t)[j := alphas t ! j + 1]
                                 else alphas t),
                      betas := (if reward \<noteq> 0 then betas t
                                else (betas t)[j := betas t ! j + 1])\<rparr>))"
proof -
  from BaseBandit_update_cases[OF assms(1), of arm reward]
  show ?thesis
  proof
    assume "BaseBandit_update t arm reward = (Inl IndexError, t)"
    then show ?thesis by (simp add: Thompson_update_def)
  next
    assume "\<exists>j<length (counts t). py_index (counts t) arm = Inr j \<and>
        BaseBandit_update t arm reward =
           (Inr (), t\<lparr>counts := (counts t)[j := counts t ! j + 1],
                      values := (values t)[j := values t ! j
                         + (real_of_int reward - values t ! j) / real_of_int (counts t ! j + 1)]\<rparr>)"
    then obtain j where j: "j < length (counts t)" "py_index (counts t) arm = Inr j"
      and upd: "BaseBandit_update t arm reward =
           (Inr (), t\<lparr>counts := (counts t)[j := counts t ! j + 1],
                      values := (values t)[j := values t ! j
                         + (real_of_int reward - values t ! j) / real_of_int (counts t ! j + 1)]\<rparr>)"
      by blast
    have "py_index (alphas t) arm = Inr j" "py_index (betas t) arm = Inr j"
      using j(2) assms py_index_same_length[of "alphas t" "counts t" arm]
        py_index_same_length[of "betas t" "counts t" arm]
      by (simp_all add: stats_ok_def posterior_ok_def)
    moreover have "j < nat (n_arms t)" using j(1) assms(1) by (simp add: stats_ok_def)
    ultimately show ?thesis using j(2) upd
      by (intro disjI2 exI[of _ j]) (simp add: Thompson_update_def)
  qed
qed

lemma Thompson_update_keeps:
  assumes "stats_ok t" "posterior_ok t"
  shows "stats_ok (snd (Thompson_update t arm reward))
     \<and> posterior_ok (snd (Thompson_update t arm reward))
     \<and> n_arms (snd (Thompson_update t arm reward)) = n_arms t
     \<and> (all_positive t \<longrightarrow> all_positive (snd (Thompson_update t arm reward)))"
proof -
  from Thompson_update_cases[OF assms, of arm reward]
  show ?thesis
  proof
    assume "Thompson_update t arm reward = (Inl IndexError, t)"
    then show ?thesis using assms by simp
  next
    assume "\<exists>j<nat (n_arms t). py_index (counts t) arm = Inr j
          \<and> Thompson_update t arm reward =
           (Inr (), t\<lparr>counts := (counts t)[j := counts t ! j + 1],
                      values := (values t)[j := values t ! j
                         + (real_of_int reward - values t ! j) / real_of_int (counts t ! j + 1)],
                      alphas := (if reward \<noteq> 0 then (alphas t)[j := alphas t ! j + 1]
                                 else alphas t),
                      betas := (if reward \<noteq> 0 then betas t
                                else (betas t)[j := betas t ! j + 1])\<rparr>)"
    then obtain j t' where j: "j < nat (n_arms t)"
      and upd: "Thompson_update t arm reward = (Inr (), t')"
      and t': "t' = t\<lparr>counts := (counts t)[j := counts t ! j + 1],
                      values := (values t)[j := values t ! j
                         + (real_of_int reward - values t ! j) / real_of_int (counts t ! j + 1)],
                      alphas := (if reward \<noteq> 0 then (alphas t)[j := alphas t ! j + 1]
                                 else alphas t),
                      betas := (if reward \<noteq> 0 then betas t
                                else (betas t)[j := betas t ! j + 1])\<rparr>"
      by blast
    have cnt: "0 \<le> counts t ! k" if "k < nat (n_arms t)" for k
      using assms(1) that by (simp add: stats_ok_def list_all_length)
    have "list_all (\<lambda>c. 0 \<le> c) (counts t')"
      unfolding list_all_length
    proof (intro allI impI)
      fix k assume "k < length (counts t')"
      then have k: "k < nat (n_arms t)" using assms(1) by (simp add: t' stats_ok_def)
      show "0 \<le> counts t' ! k"
        using cnt[OF k] cnt[OF j] k assms(1)
        by (cases "k = j") (simp_all add: t' stats_ok_def)
    qed
    then have s': "stats_ok t'" using assms(1) by (simp add: stats_ok_def t')
    have p': "posterior_ok t'" using assms(2) by (simp add: posterior_ok_def t')
    have pos': "all_positive t'" if pos: "all_positive t"
    proof -
      have a: "0 < alphas t ! k" and b: "0 < betas t ! k" if "k < nat (n_arms t)" for k
        using pos assms(2) that by (simp_all add: all_positive_def posterior_ok_def list_all_length)
      have "0 < alphas t' ! k \<and> 0 < betas t' ! k" if k: "k < nat (n_arms t)" for k
        using a[OF k] b[OF k] a[OF j] b[OF j] k assms(2)
        by (cases "k = j") (simp_all add: t' posterior_ok_def)
      then show ?thesis
        using p' by (simp add: all_positive_def list_all_length posterior_ok_def t')
    qed
    show ?thesis using upd s' p' pos' by (simp add: t')
  qed
qed

lemma warm_up_loop_keeps:
  assumes "stats_ok t" "posterior_ok t" "\<forall>a\<in>set arms. 0 \<le> a \<and> a < n_arms t"
  shows "stats_ok (fst (snd (warm_up_loop rnd arms (t, s))))
     \<and> posterior_ok (fst (snd (warm_up_loop rnd arms (t, s))))
     \<and> n_arms (fst (snd (warm_up_loop rnd arms (t, s)))) = n_arms t
     \<and> (all_positive t \<longrightarrow> all_positive (fst (snd (warm_up_loop rnd arms (t, s)))))"
  using assms
proof (induction arms arbitrary: t s)
  case Nil
  then show ?case by simp
next
  case (Cons arm arms)
  have arm: "0 \<le> arm" "arm < n_arms t" using Cons.prems(3) by auto
  show ?case
  proof (cases "arm < int (length (true_probs t))")
    case False
    from warm_up_arm_short[OF arm(1) False, of rnd s] Cons.prems(1,2)
    show ?thesis by simp
  next
    case True
    from warm_up_arm_ok[OF Cons.prems(1,2) arm True, of rnd s]
    obtain rwd s1 where rwd: "rwd = 0 \<or> rwd = 1"
      and step: "warm_up_arm rnd arm (t, s) = (Inr (), (warmed t (nat arm) rwd, s1))"
      by blast
    have j: "nat arm < nat (n_arms t)" using arm by simp
    note ok1 = warmed_ok[OF Cons.prems(1,2) j, of rwd]
    have pos1: "all_positive t \<longrightarrow> all_positive (warmed t (nat arm) rwd)"
      using warmed_positive[OF Cons.prems(2) j rwd] by blast
    have "\<forall>a\<in>set arms. 0 \<le> a \<and> a < n_arms (warmed t (nat arm) rwd)"
      using Cons.prems(3) ok1(3) by simp
    from Cons.IH[OF ok1(1,2) this, of s1] pos1 ok1(3) step
    show ?thesis by simp
  qed
qed

lemma Thompson_call_keeps:
  assumes "stats_ok t" "posterior_ok t"
  shows "stats_ok (fst (Thompson_call (t, s) c))
     \<and> posterior_ok (fst (Thompson_call (t, s) c))
     \<and> n_arms (fst (Thompson_call (t, s) c)) = n_arms t
     \<and> (all_positive t \<longrightarrow> all_positive (fst (Thompson_call (t, s) c)))"
proof (cases c)
  case (TPull thetas)
  then show ?thesis using assms by (simp add: Thompson_pull_def split: sum.splits)
next
  case (TReward arm u)
  then show ?thesis using assms by (simp add: BaseBandit_reward_def split: sum.splits)
next
  case (TUpdate arm reward)
  then show ?thesis using Thompson_update_keeps[OF assms, of arm reward] by simp
next
  case (TWarmUp rnd)
  have "\<forall>a\<in>set (py_range (n_arms t)). 0 \<le> a \<and> a < n_arms t"
    by (auto simp: py_range_def)
  from warm_up_loop_keeps[OF assms this, of rnd s] TWarmUp
  show ?thesis by (simp add: Thompson_warm_up_def)
next
  case TRmse
  then show ?thesis using assms by (simp add: snd_BaseBandit_rmse)
qed

lemma Thompson_calls_keeps:
  assumes "stats_ok t" "posterior_ok t" "all_positive t"
  shows "stats_ok (fst (Thompson_calls (t, s) calls))
     \<and> posterior_ok (fst (Thompson_calls (t, s) calls))
     \<and> all_positive (fst (Thompson_calls (t, s) calls))"
  using assms unfolding Thompson_calls_def
proof (induction calls arbitrary: t s)
  case Nil
  then show ?case by simp
next
  case (Cons c calls)
  obtain t1 s1 where c: "Thompson_call (t, s) c = (t1, s1)" by (cases "Thompson_call (t, s) c")
  from Thompson_call_keeps[OF Cons.prems(1,2), of s c] Cons.prems(3) c
  have "stats_ok t1" "posterior_ok t1" "all_positive t1" by simp_all
  from Cons.IH[OF this, of s1] c show ?case by simp
qed

text \<open>
  Claim C6. On a well-formed Thompson instance, \<^verbatim>\<open>update(i, r)\<close> with \<open>i\<close> in
  \<open>[0, n_arms)\<close> and \<open>r\<close> in \<open>{0, 1}\<close> returns; it has increased \<open>alphas[i] + betas[i]\<close> by
  exactly 1, \<open>alphas[i]\<close> by \<open>r\<close> and \<open>betas[i]\<close> by \<open>1 - r\<close>, and has left the parameters of
  every other arm as they were. Hence positive parameters stay positive: after this
  update, and after any sequence of calls (pulls, rewards, updates with any arguments,
  warm-ups, rmse) on the instance.
\<close>

theorem Thompson_update_posterior:
  assumes "stats_ok t" "posterior_ok t" "0 \<le> i" "i < n_arms t" "r = 0 \<or> r = 1"
  shows "\<exists>t'. Thompson_update t i r = (Inr (), t')
     \<and> alphas t' ! nat i + betas t' ! nat i = alphas t ! nat i + betas t ! nat i + 1
     \<and> alphas t' ! nat i = alphas t ! nat i + r
     \<and> betas t' ! nat i = betas t ! nat i + (1 - r)
     \<and> (\<forall>j<nat (n_arms t). j \<noteq> nat i \<longrightarrow>
            alphas t' ! j = alphas t ! j \<and> betas t' ! j = betas t ! j)
     \<and> (all_positive t \<longrightarrow>
            all_positive t' \<and> (\<forall>calls s. all_positive (fst (Thompson_calls (t, s) calls))))"
proof -
  define t1 where "t1 = t\<lparr>counts := (counts t)[nat i := counts t ! nat i + 1],
                values := (values t)[nat i := values t ! nat i
                   + (real_of_int r - values t ! nat i) / real_of_int (counts t ! nat i + 1)]\<rparr>"
  define t' where "t' = (if r \<noteq> 0 then t1\<lparr>alphas := (alphas t1)[nat i := alphas t1 ! nat i + 1]\<rparr>
                         else t1\<lparr>betas := (betas t1)[nat i := betas t1 ! nat i + 1]\<rparr>)"
  have base: "BaseBandit_update t i r = (Inr (), t1)"
    unfolding t1_def by (rule BaseBandit_update_in_range[OF assms(1,3,4)])
  have ia: "py_index (alphas t1) i = Inr (nat i)"
    and ib: "py_index (betas t1) i = Inr (nat i)"
    using assms(2,3,4) by (simp_all add: t1_def posterior_ok_def py_index_nonneg)
  have upd: "Thompson_update t i r = (Inr (), t')"
    by (simp add: Thompson_update_def base ia ib t'_def)
  have t': "alphas t' = (if r \<noteq> 0 then (alphas t)[nat i := alphas t ! nat i + 1] else alphas t)"
    "betas t' = (if r \<noteq> 0 then betas t else (betas t)[nat i := betas t ! nat i + 1])"
    by (simp_all add: t'_def t1_def)
  have len: "nat i < length (alphas t)" "nat i < length (betas t)"
    using assms(2,3,4) by (simp_all add: posterior_ok_def)
  have a: "alphas t' ! nat i = alphas t ! nat i + r" and b: "betas t' ! nat i = betas t ! nat i + (1 - r)"
    using assms(5) len by (auto simp: t')
  have others: "\<forall>j<nat (n_arms t). j \<noteq> nat i \<longrightarrow>
            alphas t' ! j = alphas t ! j \<and> betas t' ! j = betas t ! j"
    by (simp add: t')
  have pos: "all_positive t'" if "all_positive t"
    using Thompson_update_keeps[OF assms(1,2), of i r] that upd by simp
  have seq: "\<forall>calls s. all_positive (fst (Thompson_calls (t, s) calls))" if "all_positive t"
    using Thompson_calls_keeps[OF assms(1,2) that] by blast
  show ?thesis
    using upd a b others pos seq by (intro exI[of _ t']) simp
qed

theorem Thompson_update_posterior_witness:
  "stats_ok two_arms_thompson \<and> posterior_ok two_arms_thompson \<and> all_positive two_arms_thompson
   \<and> (0::int) \<le> 0 \<and> 0 < n_arms two_arms_thompson
   \<and> (\<exists>t'. Thompson_update two_arms_thompson 0 1 = (Inr (), t')
         \<and> alphas t' = [2, 1] \<and> betas t' = [1, 1] \<and> all_positive t')
   \<and> all_positive (fst (Thompson_calls (two_arms_thompson, empty_session)
                          [TUpdate 0 1, TWarmUp half_draws, TUpdate (- 1) 0]))"
  using Thompson_update_posterior[of two_arms_thompson 0 1]
  by (auto simp: two_arms_thompson_def stats_ok_def posterior_ok_def all_positive_def
        Thompson_update_def BaseBandit_update_def py_index_def Let_def)

section \<open>Constructed instances are fresh\<close>

text \<open>
  Every constructor leaves \<open>n_arms\<close> zero counts and zero values, the state that the
  statement about the incremental mean starts from.
\<close>

lemma constructed_fresh:
  "BaseBandit_init n tp draws = Inr b \<Longrightarrow> fresh b \<and> n_arms b = n"
  "EpsilonGreedy_init n eps tp draws = Inr e \<Longrightarrow> fresh e \<and> n_arms e = n"
  "UCB1_init n tp draws = Inr c \<Longrightarrow> fresh c \<and> n_arms c = n"
  "Thompson_init n a0 b0 tp draws = Inr t \<Longrightarrow> fresh t \<and> n_arms t = n"
  by (auto simp: EpsilonGreedy_init_def UCB1_init_def Thompson_init_def BaseBandit_init_eq
        fresh_def split: if_splits)

end
